theory Spec2Isabelle
  imports Main "HOL-Library.Word"
begin

unbundle bit_operations_syntax

section \<open>The measurement-record reader (stim/io/measure\_record\_reader.cc)\<close>

text \<open>
  Shallow embedding of the five format decoders of \<^verbatim>\<open>measure_record_reader.cc\<close>.

  \<^item> The byte source \<^verbatim>\<open>FILE *in\<close> is the list of bytes not yet read; \<^verbatim>\<open>getc\<close> returns
    the next byte as an \<open>int\<close> in 0..255 and removes it, or \<^verbatim>\<open>EOF\<close> (-1) on the empty list.
  \<^item> Every decoder object is a record of its member variables; every member function takes
    the object and returns the updated object together with its C++ return value.
  \<^item> Every \<^verbatim>\<open>throw\<close> is a value \<open>Inl e\<close> of the result type \<open>error + 'a\<close>, one constructor
    of \<open>error\<close> per throw site. An \<^verbatim>\<open>assert\<close> is modelled for both builds: with assertions
    compiled in its argument is evaluated and its failure is the error \<open>assertion_failed\<close>;
    under \<^verbatim>\<open>NDEBUG\<close> the argument is not evaluated at all, side effects included (this
    matters for \<^verbatim>\<open>assert(maybe_buffer_data())\<close> in the R8 decoder).
  \<^item> \<^verbatim>\<open>size_t\<close> and \<^verbatim>\<open>uint64_t\<close> values are natural numbers, and where the source adds or
    multiplies values that it has not bounded before, the result is taken modulo \<open>2 ^ 64\<close>
    (\<open>uint64\<close>): in \<^verbatim>\<open>read_uint64\<close>, which tests for the wrap-around itself, and in the sums
    of the three widths of the DETS decoder. Positions and run counters count bits that
    were read from the stream and stay below the width of the record.
\<close>

subsection \<open>Byte source and errors\<close>

type_synonym byte = "8 word"
type_synonym stream = "byte list"

definition EOF :: int where
  "EOF = - 1"

fun getc :: "stream \<Rightarrow> int \<times> stream" where
  "getc [] = (EOF, [])"
| "getc (b # bs) = (uint b, bs)"

lemma getc_shorter: "(r, i) = getc xs \<Longrightarrow> r \<noteq> EOF \<Longrightarrow> length i < length xs"
  by (cases xs) auto

lemma getc_not_longer: "(r, i) = getc xs \<Longrightarrow> length i \<le> length xs"
  by (cases xs) auto

lemma uint_not_EOF: "uint (b :: byte) \<noteq> EOF"
proof -
  have "0 \<le> uint b" by simp
  then show ?thesis unfolding EOF_def by linarith
qed

lemma getc_at_end: "(r, i) = getc xs \<Longrightarrow> r = EOF \<Longrightarrow> i = [] \<and> xs = []"
proof (cases xs)
  case Nil
  then show "(r, i) = getc xs \<Longrightarrow> r = EOF \<Longrightarrow> i = [] \<and> xs = []" by simp
next
  case (Cons b bs)
  assume "(r, i) = getc xs" "r = EOF"
  with Cons have "uint b = EOF" by simp
  with uint_not_EOF [of b] show "i = [] \<and> xs = []" by simp
qed

lemma getc_range: "(r, i) = getc xs \<Longrightarrow> r = EOF \<or> (0 \<le> r \<and> r < 256)"
proof (cases xs)
  case Nil
  then show "(r, i) = getc xs \<Longrightarrow> r = EOF \<or> (0 \<le> r \<and> r < 256)" by simp
next
  case (Cons b bs)
  have "uint b < 2 ^ LENGTH(8)" by (rule uint_lt2p)
  then have "uint b < 256" by simp
  with Cons show "(r, i) = getc xs \<Longrightarrow> r = EOF \<or> (0 \<le> r \<and> r < 256)" by simp
qed

datatype error =
    keyword_not_found
  | integer_too_big
  | f01_past_end_of_file
  | f01_past_end_of_record
  | f01_expected_0_or_1
  | f01_line_too_long
  | f01_ended_early
  | f01_did_not_end
  | b8_past_end_of_record
  | b8_past_end_of_file
  | hits_read_past_end_of_buffer
  | hits_no_integer
  | hits_bad_separator
  | hits_value_too_big
  | r8_read_past_end_of_record
  | r8_attempted_past_end_of_record
  | r8_ended_on_continuation
  | r8_no_terminator_before_end_of_input
  | r8_no_terminator_before_more_data
  | r8_jump_past_end
  | dets_read_past_end_of_buffer
  | dets_no_spacing
  | dets_unrecognized_prefix
  | dets_no_integer
  | dets_value_too_big
  | assertion_failed

subsection \<open>Lexer helpers\<close>

text \<open>
  \<^verbatim>\<open>maybe_consume_keyword\<close>: the result holds the returned flag, the output variable
  \<^verbatim>\<open>next\<close> and the rest of the stream. The loop over the characters of the keyword is
  \<open>consume_keyword_chars\<close>.
\<close>

fun consume_keyword_chars :: "string \<Rightarrow> int \<Rightarrow> stream \<Rightarrow> error + (int \<times> stream)" where
  "consume_keyword_chars [] next i = Inr (next, i)"
| "consume_keyword_chars (c # cs) next i =
     (if of_char c \<noteq> next then Inl keyword_not_found
      else case getc i of (next1, i1) \<Rightarrow> consume_keyword_chars cs next1 i1)"

definition maybe_consume_keyword :: "stream \<Rightarrow> string \<Rightarrow> error + (bool \<times> int \<times> stream)" where
  "maybe_consume_keyword i keyword =
     (case getc i of (next, i1) \<Rightarrow>
        if next = EOF then Inr (False, next, i1)
        else (case consume_keyword_chars keyword next i1 of
                Inl e \<Rightarrow> Inl e
              | Inr (next1, i2) \<Rightarrow> Inr (True, next1, i2)))"

definition isdigit :: "int \<Rightarrow> bool" where
  "isdigit c \<longleftrightarrow> 48 \<le> c \<and> c \<le> 57"

text \<open>
  The \<^verbatim>\<open>while (isdigit(next))\<close> loop of \<^verbatim>\<open>read_uint64\<close>, on a 64-bit unsigned \<^verbatim>\<open>value\<close>:
  multiplication and addition wrap modulo \<open>2 ^ 64\<close> (\<open>uint64\<close>), and the source's test
  \<^verbatim>\<open>value < prev_value\<close> is the only overflow check.
\<close>

definition uint64 :: "nat \<Rightarrow> nat" where
  "uint64 n = nat (int n mod 2 ^ 64)"

function read_uint64_loop :: "nat \<Rightarrow> int \<Rightarrow> stream \<Rightarrow> error + (nat \<times> int \<times> stream)" where
  "read_uint64_loop v next i =
     (if isdigit next then
        let prev_value = v;
            v1 = uint64 (v * 10);
            v2 = uint64 (v1 + nat (next - 48))
        in if v2 < prev_value then Inl integer_too_big
           else case getc i of (next1, i1) \<Rightarrow> read_uint64_loop v2 next1 i1
      else Inr (v, next, i))"
  by pat_completeness auto
termination
  apply (relation "measure (\<lambda>(v, next, i). length i + (if isdigit next then 1 else 0))")
  subgoal by simp
  subgoal premises p for v "next" i
    using p by (cases i) (auto simp: isdigit_def EOF_def)
  done

declare read_uint64_loop.simps [simp del]

text \<open>
  \<^verbatim>\<open>read_uint64\<close>: the first component of the result is \<open>None\<close> when the function returns
  false (and leaves \<^verbatim>\<open>value\<close> unset), \<open>Some value\<close> when it returns true.
\<close>

definition read_uint64 :: "stream \<Rightarrow> int \<Rightarrow> bool \<Rightarrow> error + (nat option \<times> int \<times> stream)" where
  "read_uint64 i next include_next =
     (case (if \<not> include_next then getc i else (next, i)) of (next1, i1) \<Rightarrow>
        if \<not> isdigit next1 then Inr (None, next1, i1)
        else (case read_uint64_loop 0 next1 i1 of
                Inl e \<Rightarrow> Inl e
              | Inr (v, next2, i2) \<Rightarrow> Inr (Some v, next2, i2)))"

lemma read_uint64_loop_shorter:
  "read_uint64_loop v next i = Inr (v1, next1, i1) \<Longrightarrow>
     length i1 \<le> length i \<and> (isdigit next \<and> next1 \<noteq> EOF \<longrightarrow> length i1 < length i)"
proof (induction v "next" i rule: read_uint64_loop.induct)
  case (1 v "next" i)
  show ?case
  proof (cases "isdigit next")
    case False
    with "1.prems" show ?thesis by (simp add: read_uint64_loop.simps [of v "next" i])
  next
    case True
    obtain c j where g: "getc i = (c, j)" by (cases "getc i")
    let ?v2 = "uint64 (uint64 (v * 10) + nat (next - 48))"
    from True "1.prems" g have ge: "\<not> ?v2 < v" and rec: "read_uint64_loop ?v2 c j = Inr (v1, next1, i1)"
      by (auto simp: Let_def read_uint64_loop.simps [of v "next" i] split: if_splits)
    from "1.IH" [OF True refl refl refl ge g [symmetric] rec]
    have ih: "length i1 \<le> length j \<and> (isdigit c \<and> next1 \<noteq> EOF \<longrightarrow> length i1 < length j)" .
    show ?thesis
    proof (cases i)
      case Nil
      with g have "c = EOF" "j = []" by auto
      with rec have "next1 = EOF" "i1 = []"
        by (auto simp: isdigit_def EOF_def read_uint64_loop.simps [of _ "- 1" "[]"])
      with Nil show ?thesis by simp
    next
      case (Cons b bs)
      with g have "j = bs" by auto
      with ih Cons show ?thesis by auto
    qed
  qed
qed

lemma read_uint64_shorter:
  assumes "read_uint64 i next include_next = Inr (Some v, next1, i1)"
  shows "length i1 \<le> length i"
    and "next1 \<noteq> EOF \<Longrightarrow> length i1 < length i"
    and "\<not> include_next \<Longrightarrow> length i1 < length i"
proof -
  obtain c j where g: "(if \<not> include_next then getc i else (next, i)) = (c, j)"
    by (cases "if \<not> include_next then getc i else (next, i)")
  from assms g have d: "isdigit c" and l: "read_uint64_loop 0 c j = Inr (v, next1, i1)"
    by (auto simp: read_uint64_def split: if_splits sum.splits)
  from g have j: "length j \<le> length i"
    by (cases i) (auto split: if_splits)
  from read_uint64_loop_shorter [OF l] d
  have s: "length i1 \<le> length j" "next1 \<noteq> EOF \<Longrightarrow> length i1 < length j" by auto
  from s j show "length i1 \<le> length i" by simp
  from s j show "next1 \<noteq> EOF \<Longrightarrow> length i1 < length i" by simp
  show "\<not> include_next \<Longrightarrow> length i1 < length i"
  proof -
    assume n: "\<not> include_next"
    with g d have "length j < length i"
      by (cases i) (auto simp: isdigit_def EOF_def)
    with s show ?thesis by simp
  qed
qed

subsection \<open>The shared contract: default \<^verbatim>\<open>read_bits_into_bytes\<close>\<close>

text \<open>
  \<^verbatim>\<open>MeasureRecordReader::read_bits_into_bytes\<close> calls the virtual functions \<^verbatim>\<open>read_bit\<close>,
  \<^verbatim>\<open>is_end_of_record\<close> and \<^verbatim>\<open>current_result_type\<close> of the decoder: they are parameters here.
  The output buffer is a list of bytes; the result holds the returned bit count, the buffer
  after the call and the decoder after the call.

  \<open>default_bit_loop\<close> is the inner loop over \<open>k\<close> for one byte \<open>b\<close>; the first component of
  its result tells whether the \<^verbatim>\<open>return n\<close> inside the loop was taken.
  \<open>default_byte_loop\<close> is the outer loop over the bytes of the buffer.
\<close>

function default_bit_loop ::
  "('s \<Rightarrow> error + (bool \<times> 's)) \<Rightarrow> ('s \<Rightarrow> error + bool) \<Rightarrow> ('s \<Rightarrow> char) \<Rightarrow>
     char \<Rightarrow> nat \<Rightarrow> byte \<Rightarrow> nat \<Rightarrow> 's \<Rightarrow> error + (bool \<times> byte \<times> nat \<times> 's)" where
  "default_bit_loop read_bit is_end_of_record current_result_type result_type k b n s =
     (if k < 8 then
        (case read_bit s of
           Inl e \<Rightarrow> Inl e
         | Inr (bit_read, s1) \<Rightarrow>
             let b1 = b OR push_bit k (of_bool bit_read);
                 n1 = n + 1
             in (case is_end_of_record s1 of
                   Inl e \<Rightarrow> Inl e
                 | Inr ended \<Rightarrow>
                     if ended \<or> current_result_type s1 \<noteq> result_type then Inr (True, b1, n1, s1)
                     else default_bit_loop read_bit is_end_of_record current_result_type
                            result_type (k + 1) b1 n1 s1))
      else Inr (False, b, n, s))"
  by pat_completeness auto
termination
  by (relation "measure (\<lambda>(read_bit, is_end_of_record, current_result_type, result_type, k, b, n, s). 8 - k)")
     auto

declare default_bit_loop.simps [simp del]

fun default_byte_loop ::
  "('s \<Rightarrow> error + (bool \<times> 's)) \<Rightarrow> ('s \<Rightarrow> error + bool) \<Rightarrow> ('s \<Rightarrow> char) \<Rightarrow>
     char \<Rightarrow> byte list \<Rightarrow> nat \<Rightarrow> 's \<Rightarrow> error + (nat \<times> byte list \<times> 's)" where
  "default_byte_loop read_bit is_end_of_record current_result_type result_type [] n s =
     Inr (n, [], s)"
| "default_byte_loop read_bit is_end_of_record current_result_type result_type (b # out) n s =
     (case default_bit_loop read_bit is_end_of_record current_result_type result_type 0 0 n s of
        Inl e \<Rightarrow> Inl e
      | Inr (returned, b1, n1, s1) \<Rightarrow>
          if returned then Inr (n1, b1 # out, s1)
          else (case default_byte_loop read_bit is_end_of_record current_result_type
                       result_type out n1 s1 of
                  Inl e \<Rightarrow> Inl e
                | Inr (n2, out2, s2) \<Rightarrow> Inr (n2, b1 # out2, s2)))"

definition MeasureRecordReader_read_bits_into_bytes ::
  "('s \<Rightarrow> error + (bool \<times> 's)) \<Rightarrow> ('s \<Rightarrow> error + bool) \<Rightarrow> ('s \<Rightarrow> char) \<Rightarrow>
     's \<Rightarrow> byte list \<Rightarrow> error + (nat \<times> byte list \<times> 's)" where
  "MeasureRecordReader_read_bits_into_bytes read_bit is_end_of_record current_result_type s out_buffer =
     (case is_end_of_record s of
        Inl e \<Rightarrow> Inl e
      | Inr ended \<Rightarrow>
          if ended then Inr (0, out_buffer, s)
          else let result_type = current_result_type s
               in default_byte_loop read_bit is_end_of_record current_result_type
                    result_type out_buffer 0 s)"

definition MeasureRecordReader_current_result_type :: "'s \<Rightarrow> char" where
  "MeasureRecordReader_current_result_type s = CHR ''M''"

subsection \<open>01 format\<close>

record reader01 =
  in01 :: stream
  payload01 :: int
  position01 :: nat
  bits_per_record01 :: nat

definition Format01 :: "stream \<Rightarrow> nat \<Rightarrow> reader01" where
  "Format01 i bits_per_record =
     \<lparr>in01 = i, payload01 = 10, position01 = bits_per_record, bits_per_record01 = bits_per_record\<rparr>"

definition Format01_read_bit :: "reader01 \<Rightarrow> error + (bool \<times> reader01)" where
  "Format01_read_bit s =
     (if payload01 s = EOF then Inl f01_past_end_of_file
      else if payload01 s = 10 \<or> position01 s \<ge> bits_per_record01 s then Inl f01_past_end_of_record
      else if payload01 s \<noteq> 48 \<and> payload01 s \<noteq> 49 then Inl f01_expected_0_or_1
      else let bit = (payload01 s = 49)
           in case getc (in01 s) of (c, i) \<Rightarrow>
                Inr (bit, s\<lparr>in01 := i, payload01 := c, position01 := position01 s + 1\<rparr>))"

definition Format01_start_record :: "reader01 \<Rightarrow> error + (bool \<times> reader01)" where
  "Format01_start_record s =
     (case getc (in01 s) of (c, i) \<Rightarrow>
        Inr (c \<noteq> EOF, s\<lparr>in01 := i, payload01 := c, position01 := 0\<rparr>))"

text \<open>The \<^verbatim>\<open>while\<close> loop of \<^verbatim>\<open>next_record\<close>; \<^verbatim>\<open>position++ > bits_per_record\<close> tests the
  old value of \<^verbatim>\<open>position\<close>.\<close>

function Format01_skip_line :: "reader01 \<Rightarrow> error + reader01" where
  "Format01_skip_line s =
     (if payload01 s \<noteq> EOF \<and> payload01 s \<noteq> 10 then
        (case getc (in01 s) of (c, i) \<Rightarrow>
           if position01 s > bits_per_record01 s then Inl f01_line_too_long
           else Format01_skip_line (s\<lparr>in01 := i, payload01 := c, position01 := position01 s + 1\<rparr>))
      else Inr s)"
  by pat_completeness auto
termination
  apply (relation "measure (\<lambda>s. length (in01 s) + (if payload01 s = EOF then 0 else 1))")
  subgoal by simp
  subgoal premises p for s
    using p by (cases "in01 s") auto
  done

declare Format01_skip_line.simps [simp del]

definition Format01_next_record :: "reader01 \<Rightarrow> error + (bool \<times> reader01)" where
  "Format01_next_record s =
     (case Format01_skip_line s of Inl e \<Rightarrow> Inl e | Inr s1 \<Rightarrow> Format01_start_record s1)"

definition Format01_is_end_of_record :: "reader01 \<Rightarrow> error + bool" where
  "Format01_is_end_of_record s =
     (let payload_ended = (payload01 s = EOF \<or> payload01 s = 10);
          expected_end = (position01 s \<ge> bits_per_record01 s)
      in if payload_ended \<and> \<not> expected_end then Inl f01_ended_early
         else if \<not> payload_ended \<and> expected_end then Inl f01_did_not_end
         else Inr payload_ended)"

definition Format01_read_bits_into_bytes ::
  "reader01 \<Rightarrow> byte list \<Rightarrow> error + (nat \<times> byte list \<times> reader01)" where
  "Format01_read_bits_into_bytes =
     MeasureRecordReader_read_bits_into_bytes Format01_read_bit Format01_is_end_of_record
       MeasureRecordReader_current_result_type"

subsection \<open>B8 format\<close>

record readerB8 =
  inB8 :: stream
  bits_per_recordB8 :: nat
  payloadB8 :: int
  bits_availableB8 :: nat
  positionB8 :: nat

definition FormatB8 :: "stream \<Rightarrow> nat \<Rightarrow> readerB8" where
  "FormatB8 i bits_per_record =
     \<lparr>inB8 = i, bits_per_recordB8 = bits_per_record, payloadB8 = 0, bits_availableB8 = 0,
      positionB8 = bits_per_record\<rparr>"

definition maybe_update_payload :: "readerB8 \<Rightarrow> readerB8" where
  "maybe_update_payload s =
     (if bits_availableB8 s > 0 then s
      else case getc (inB8 s) of (c, i) \<Rightarrow>
        let s1 = s\<lparr>inB8 := i, payloadB8 := c\<rparr>
        in if c \<noteq> EOF then s1\<lparr>bits_availableB8 := 8\<rparr> else s1)"

definition FormatB8_read_bit :: "readerB8 \<Rightarrow> error + (bool \<times> readerB8)" where
  "FormatB8_read_bit s =
     (if positionB8 s \<ge> bits_per_recordB8 s then Inl b8_past_end_of_record
      else let s1 = maybe_update_payload s
           in if payloadB8 s1 = EOF then Inl b8_past_end_of_file
              else let b = (payloadB8 s1 AND 1 \<noteq> 0)
                   in Inr (b, s1\<lparr>payloadB8 := drop_bit 1 (payloadB8 s1),
                                 bits_availableB8 := bits_availableB8 s1 - 1,
                                 positionB8 := positionB8 s1 + 1\<rparr>))"

definition FormatB8_is_end_of_record :: "readerB8 \<Rightarrow> bool" where
  "FormatB8_is_end_of_record s \<longleftrightarrow> positionB8 s \<ge> bits_per_recordB8 s"

definition FormatB8_start_record :: "readerB8 \<Rightarrow> error + (bool \<times> readerB8)" where
  "FormatB8_start_record s =
     (let s1 = maybe_update_payload (s\<lparr>positionB8 := 0, bits_availableB8 := 0, payloadB8 := 0\<rparr>)
      in Inr (payloadB8 s1 \<noteq> EOF, s1))"

lemma FormatB8_read_bit_position:
  assumes "FormatB8_read_bit s = Inr (b, s1)"
  shows "positionB8 s1 = positionB8 s + 1" and "bits_per_recordB8 s1 = bits_per_recordB8 s"
    and "positionB8 s < bits_per_recordB8 s"
proof -
  obtain c i where g: "getc (inB8 s) = (c, i)" by (cases "getc (inB8 s)")
  from assms g show "positionB8 s1 = positionB8 s + 1"
    by (auto simp: FormatB8_read_bit_def maybe_update_payload_def Let_def split: if_splits)
  from assms g show "bits_per_recordB8 s1 = bits_per_recordB8 s"
    by (auto simp: FormatB8_read_bit_def maybe_update_payload_def Let_def split: if_splits)
  from assms show "positionB8 s < bits_per_recordB8 s"
    by (auto simp: FormatB8_read_bit_def split: if_splits)
qed

text \<open>The loop \<^verbatim>\<open>while (!is_end_of_record()) read_bit();\<close> of \<^verbatim>\<open>next_record\<close>.\<close>

function FormatB8_skip_record :: "readerB8 \<Rightarrow> error + readerB8" where
  "FormatB8_skip_record s =
     (if \<not> FormatB8_is_end_of_record s then
        (case FormatB8_read_bit s of Inl e \<Rightarrow> Inl e | Inr (b, s1) \<Rightarrow> FormatB8_skip_record s1)
      else Inr s)"
  by pat_completeness auto
termination
  apply (relation "measure (\<lambda>s. bits_per_recordB8 s - positionB8 s)")
  subgoal by simp
  subgoal premises p for s
    using p FormatB8_read_bit_position [of s] by auto
  done

declare FormatB8_skip_record.simps [simp del]

definition FormatB8_next_record :: "readerB8 \<Rightarrow> error + (bool \<times> readerB8)" where
  "FormatB8_next_record s =
     (case FormatB8_skip_record s of Inl e \<Rightarrow> Inl e | Inr s1 \<Rightarrow> FormatB8_start_record s1)"

text \<open>
  The override of \<^verbatim>\<open>read_bits_into_bytes\<close>. \<^verbatim>\<open>fread\<close> stores the bytes it could read at the
  start of the buffer and returns their number.
\<close>

definition fread :: "byte list \<Rightarrow> nat \<Rightarrow> stream \<Rightarrow> nat \<times> byte list \<times> stream" where
  "fread out_buffer n_bytes i =
     (let got = take n_bytes i
      in (length got, got @ drop (length got) out_buffer, drop n_bytes i))"

definition FormatB8_read_bits_into_bytes ::
  "readerB8 \<Rightarrow> byte list \<Rightarrow> error + (nat \<times> byte list \<times> readerB8)" where
  "FormatB8_read_bits_into_bytes s out_buffer =
     (if positionB8 s \<ge> bits_per_recordB8 s then Inr (0, out_buffer, s)
      else if bits_availableB8 s > 0 then
        MeasureRecordReader_read_bits_into_bytes FormatB8_read_bit
          (\<lambda>s. Inr (FormatB8_is_end_of_record s)) MeasureRecordReader_current_result_type
          s out_buffer
      else
        let n_bits = min (8 * length out_buffer) (bits_per_recordB8 s - positionB8 s);
            n_bytes = (n_bits + 7) div 8
        in case fread out_buffer n_bytes (inB8 s) of (n_bytes1, out1, i) \<Rightarrow>
             let n_bits1 = min (8 * n_bytes1) n_bits
             in Inr (n_bits1, out1, s\<lparr>inB8 := i, positionB8 := positionB8 s + n_bits1\<rparr>))"

subsection \<open>Hits format\<close>

text \<open>
  The bit buffer \<^verbatim>\<open>simd_bits buffer(bits_per_record)\<close> is a list of \<open>bits_per_record\<close>
  booleans, all false at construction and after \<^verbatim>\<open>clear()\<close>. Every index the code uses is
  checked against \<^verbatim>\<open>bits_per_record\<close> first.
\<close>

record readerHits =
  inHits :: stream
  bits_per_recordHits :: nat
  bufferHits :: "bool list"
  position_in_bufferHits :: nat

definition FormatHits :: "stream \<Rightarrow> nat \<Rightarrow> readerHits" where
  "FormatHits i bits_per_record =
     \<lparr>inHits = i, bits_per_recordHits = bits_per_record,
      bufferHits = replicate bits_per_record False, position_in_bufferHits = bits_per_record\<rparr>"

definition FormatHits_read_bit :: "readerHits \<Rightarrow> error + (bool \<times> readerHits)" where
  "FormatHits_read_bit s =
     (if position_in_bufferHits s \<ge> bits_per_recordHits s then Inl hits_read_past_end_of_buffer
      else Inr (bufferHits s ! position_in_bufferHits s,
                s\<lparr>position_in_bufferHits := position_in_bufferHits s + 1\<rparr>))"

text \<open>The \<^verbatim>\<open>while (c != '\n')\<close> loop of \<^verbatim>\<open>start_record\<close>; \<^verbatim>\<open>buffer[value] ^= true\<close> flips
  the bit.\<close>

function FormatHits_read_line :: "readerHits \<Rightarrow> int \<Rightarrow> bool \<Rightarrow> error + readerHits" where
  "FormatHits_read_line s c is_first =
     (if c \<noteq> 10 then
        (case read_uint64 (inHits s) c is_first of
           Inl e \<Rightarrow> Inl e
         | Inr (None, c1, i) \<Rightarrow> Inl hits_no_integer
         | Inr (Some v, c1, i) \<Rightarrow>
             if c1 \<noteq> 44 \<and> c1 \<noteq> 10 then Inl hits_bad_separator
             else if v \<ge> bits_per_recordHits s then Inl hits_value_too_big
             else FormatHits_read_line
                    (s\<lparr>inHits := i, bufferHits := (bufferHits s)[v := (bufferHits s ! v \<noteq> True)]\<rparr>)
                    c1 False)
      else Inr s)"
  by pat_completeness auto
termination
  apply (relation "measure (\<lambda>(s, c, is_first). length (inHits s))")
  subgoal by simp
  subgoal premises p for s c is_first x a y v
    using p read_uint64_shorter(2) [of "inHits s" c is_first] by (auto simp: EOF_def)
  done

declare FormatHits_read_line.simps [simp del]

definition FormatHits_start_record :: "readerHits \<Rightarrow> error + (bool \<times> readerHits)" where
  "FormatHits_start_record s =
     (case getc (inHits s) of (c, i) \<Rightarrow>
        if c = EOF then Inr (False, s\<lparr>inHits := i\<rparr>)
        else (case FormatHits_read_line
                     (s\<lparr>inHits := i, bufferHits := replicate (length (bufferHits s)) False,
                        position_in_bufferHits := 0\<rparr>) c True of
                Inl e \<Rightarrow> Inl e
              | Inr s1 \<Rightarrow> Inr (True, s1)))"

definition FormatHits_next_record :: "readerHits \<Rightarrow> error + (bool \<times> readerHits)" where
  "FormatHits_next_record s = FormatHits_start_record s"

definition FormatHits_is_end_of_record :: "readerHits \<Rightarrow> bool" where
  "FormatHits_is_end_of_record s \<longleftrightarrow> position_in_bufferHits s \<ge> bits_per_recordHits s"

definition FormatHits_read_bits_into_bytes ::
  "readerHits \<Rightarrow> byte list \<Rightarrow> error + (nat \<times> byte list \<times> readerHits)" where
  "FormatHits_read_bits_into_bytes =
     MeasureRecordReader_read_bits_into_bytes FormatHits_read_bit
       (\<lambda>s. Inr (FormatHits_is_end_of_record s)) MeasureRecordReader_current_result_type"

subsection \<open>R8 format\<close>

record readerR8 =
  NDEBUG :: bool
  inR8 :: stream
  bits_per_recordR8 :: nat
  positionR8 :: nat
  have_seen_terminal_1 :: bool
  buffered_0s :: nat
  buffered_1s :: nat

text \<open>
  The field \<open>NDEBUG\<close> is not a member of the class: it records whether the decoder was
  compiled with the macro \<^verbatim>\<open>NDEBUG\<close> defined, which turns every \<^verbatim>\<open>assert(e)\<close> into nothing, so
  that \<^verbatim>\<open>e\<close> is not evaluated. No member function changes it. With \<open>NDEBUG\<close> false the
  assertions are compiled in.

  The constructor sets \<^verbatim>\<open>in\<close> and \<^verbatim>\<open>bits_per_record\<close>; the other members take the default
  initialisers of the class declaration, which \<^verbatim>\<open>start_record\<close> either overwrites
  (\<^verbatim>\<open>position\<close>, \<^verbatim>\<open>have_seen_terminal_1\<close>) or asserts to be zero (the two run counters).
\<close>

definition FormatR8 :: "bool \<Rightarrow> stream \<Rightarrow> nat \<Rightarrow> readerR8" where
  "FormatR8 ndebug i bits_per_record =
     \<lparr>NDEBUG = ndebug, inR8 = i, bits_per_recordR8 = bits_per_record, positionR8 = 0,
      have_seen_terminal_1 = False, buffered_0s = 0, buffered_1s = 0\<rparr>"

definition FormatR8_is_end_of_record :: "readerR8 \<Rightarrow> bool" where
  "FormatR8_is_end_of_record s \<longleftrightarrow>
     positionR8 s = bits_per_recordR8 s \<and> have_seen_terminal_1 s"

text \<open>
  The \<^verbatim>\<open>do ... while (r == 0xFF)\<close> loop of \<^verbatim>\<open>maybe_buffer_data\<close>. The result \<open>False\<close> is
  the \<^verbatim>\<open>return false\<close> inside the loop (no next record), \<open>True\<close> is leaving the loop.
\<close>

function count_zeroes :: "readerR8 \<Rightarrow> error + (bool \<times> readerR8)" where
  "count_zeroes s =
     (case getc (inR8 s) of (r, i) \<Rightarrow>
        if r = EOF then
          (if buffered_0s s = 0 \<and> positionR8 s = 0 then Inr (False, s\<lparr>inR8 := i\<rparr>)
           else Inl r8_ended_on_continuation)
        else if r = 255 then count_zeroes (s\<lparr>inR8 := i, buffered_0s := buffered_0s s + nat r\<rparr>)
        else Inr (True, s\<lparr>inR8 := i, buffered_0s := buffered_0s s + nat r\<rparr>))"
  by pat_completeness auto
termination
  by (relation "measure (\<lambda>s. length (inR8 s))") (auto dest: getc_shorter)

declare count_zeroes.simps [simp del]

definition maybe_buffer_data :: "readerR8 \<Rightarrow> error + (bool \<times> readerR8)" where
  "maybe_buffer_data s =
     (if \<not> NDEBUG s \<and> buffered_0s s \<noteq> 0 then Inl assertion_failed
      else if \<not> NDEBUG s \<and> buffered_1s s \<noteq> 0 then Inl assertion_failed
      else if FormatR8_is_end_of_record s then Inl r8_attempted_past_end_of_record
      else case count_zeroes s of
        Inl e \<Rightarrow> Inl e
      | Inr (False, s1) \<Rightarrow> Inr (False, s1)
      | Inr (True, s1) \<Rightarrow>
          let s2 = s1\<lparr>buffered_1s := 1\<rparr>;
              total_data = positionR8 s2 + buffered_0s s2 + buffered_1s s2
          in if total_data = bits_per_recordR8 s2 then
               (case getc (inR8 s2) of (t, i) \<Rightarrow>
                  if t = EOF then Inl r8_no_terminator_before_end_of_input
                  else if t \<noteq> 0 then Inl r8_no_terminator_before_more_data
                  else Inr (True, s2\<lparr>inR8 := i, have_seen_terminal_1 := True\<rparr>))
             else if total_data = bits_per_recordR8 s2 + 1 then
               Inr (True, s2\<lparr>have_seen_terminal_1 := True, buffered_1s := 0\<rparr>)
             else if total_data > bits_per_recordR8 s2 + 1 then Inl r8_jump_past_end
             else Inr (True, s2))"

text \<open>
  \<^verbatim>\<open>assert(maybe_buffer_data())\<close>: nothing at all under \<^verbatim>\<open>NDEBUG\<close>, where the argument of
  \<^verbatim>\<open>assert\<close> is not evaluated and the run counters are not refilled; otherwise the call, and
  the failure when it returns false.
\<close>

definition assert_maybe_buffer_data :: "readerR8 \<Rightarrow> error + readerR8" where
  "assert_maybe_buffer_data s =
     (if NDEBUG s then Inr s
      else case maybe_buffer_data s of
        Inl e \<Rightarrow> Inl e
      | Inr (ok, s1) \<Rightarrow> if ok then Inr s1 else Inl assertion_failed)"

definition FormatR8_read_bit :: "readerR8 \<Rightarrow> error + (bool \<times> readerR8)" where
  "FormatR8_read_bit s =
     (case (if buffered_0s s = 0 \<and> buffered_1s s = 0 then assert_maybe_buffer_data s else Inr s) of
        Inl e \<Rightarrow> Inl e
      | Inr s1 \<Rightarrow>
          if buffered_0s s1 \<noteq> 0 then
            Inr (False, s1\<lparr>buffered_0s := buffered_0s s1 - 1, positionR8 := positionR8 s1 + 1\<rparr>)
          else if buffered_1s s1 \<noteq> 0 then
            Inr (True, s1\<lparr>buffered_1s := buffered_1s s1 - 1, positionR8 := positionR8 s1 + 1\<rparr>)
          else Inl r8_read_past_end_of_record)"

definition FormatR8_start_record :: "readerR8 \<Rightarrow> error + (bool \<times> readerR8)" where
  "FormatR8_start_record s = maybe_buffer_data (s\<lparr>positionR8 := 0, have_seen_terminal_1 := False\<rparr>)"

lemma count_zeroes_shorter:
  "count_zeroes s = Inr (True, s1) \<Longrightarrow> length (inR8 s1) < length (inR8 s)"
proof (induction s rule: count_zeroes.induct)
  case (1 s)
  obtain r i where g: "getc (inR8 s) = (r, i)" by (cases "getc (inR8 s)")
  from "1.prems" g have ne: "r \<noteq> EOF"
    by (auto simp: count_zeroes.simps [of s] split: if_splits)
  from getc_shorter [OF g [symmetric] ne] have sh: "length i < length (inR8 s)" .
  show ?case
  proof (cases "r = 255")
    case True
    with "1.prems" g ne
    have "count_zeroes (s\<lparr>inR8 := i, buffered_0s := buffered_0s s + nat r\<rparr>) = Inr (True, s1)"
      by (simp add: count_zeroes.simps [of s])
    from "1.IH" [OF g [symmetric] ne True this] sh show ?thesis by simp
  next
    case False
    with "1.prems" g ne sh show ?thesis by (auto simp: count_zeroes.simps [of s])
  qed
qed

lemma maybe_buffer_data_shorter:
  assumes "maybe_buffer_data s = Inr (True, s1)"
  shows "length (inR8 s1) < length (inR8 s)"
proof -
  from assms obtain s0 where c: "count_zeroes s = Inr (True, s0)"
    by (auto simp: maybe_buffer_data_def split: if_splits sum.splits bool.splits)
  obtain t i where g: "getc (inR8 s0) = (t, i)" by (cases "getc (inR8 s0)")
  from getc_not_longer [OF g [symmetric]] have "length i \<le> length (inR8 s0)" .
  with assms c g have "length (inR8 s1) \<le> length (inR8 s0)"
    by (auto simp: maybe_buffer_data_def Let_def split: if_splits)
  with count_zeroes_shorter [OF c] show ?thesis by simp
qed

lemma FormatR8_read_bit_decreases:
  assumes "FormatR8_read_bit s = Inr (b, s1)"
  shows "length (inR8 s1) < length (inR8 s) \<or>
         (length (inR8 s1) = length (inR8 s) \<and>
          buffered_0s s1 + buffered_1s s1 < buffered_0s s + buffered_1s s)"
proof (cases "buffered_0s s = 0 \<and> buffered_1s s = 0")
  case True
  with assms obtain s0 where m: "maybe_buffer_data s = Inr (True, s0)"
    by (auto simp: FormatR8_read_bit_def assert_maybe_buffer_data_def split: sum.splits if_splits)
  with assms True have "inR8 s1 = inR8 s0"
    by (auto simp: FormatR8_read_bit_def assert_maybe_buffer_data_def split: if_splits)
  with maybe_buffer_data_shorter [OF m] show ?thesis by simp
next
  case False
  with assms show ?thesis
    by (auto simp: FormatR8_read_bit_def split: if_splits)
qed

text \<open>The loop \<^verbatim>\<open>while (!is_end_of_record()) read_bit();\<close> of \<^verbatim>\<open>next_record\<close>.\<close>

function FormatR8_skip_record :: "readerR8 \<Rightarrow> error + readerR8" where
  "FormatR8_skip_record s =
     (if \<not> FormatR8_is_end_of_record s then
        (case FormatR8_read_bit s of Inl e \<Rightarrow> Inl e | Inr (b, s1) \<Rightarrow> FormatR8_skip_record s1)
      else Inr s)"
  by pat_completeness auto
termination
  apply (relation "measures [\<lambda>s. length (inR8 s), \<lambda>s. buffered_0s s + buffered_1s s]")
  subgoal by simp
  subgoal premises p for s
    using p FormatR8_read_bit_decreases [of s] by auto
  done

declare FormatR8_skip_record.simps [simp del]

definition FormatR8_next_record :: "readerR8 \<Rightarrow> error + (bool \<times> readerR8)" where
  "FormatR8_next_record s =
     (case FormatR8_skip_record s of Inl e \<Rightarrow> Inl e | Inr s1 \<Rightarrow> FormatR8_start_record s1)"

text \<open>
  The override of \<^verbatim>\<open>read_bits_into_bytes\<close>: \<open>FormatR8_bit_loop\<close> is the inner loop over
  \<open>k\<close> (first component of the result: the \<^verbatim>\<open>return n\<close> inside the loop was taken),
  \<open>FormatR8_byte_loop\<close> the loop over the bytes of the buffer, each set to zero first.
\<close>

function FormatR8_bit_loop ::
  "nat \<Rightarrow> byte \<Rightarrow> nat \<Rightarrow> readerR8 \<Rightarrow> error + (bool \<times> byte \<times> nat \<times> readerR8)" where
  "FormatR8_bit_loop k b n s =
     (if k < 8 then
        (case (if buffered_0s s = 0 \<and> buffered_1s s = 0 \<and> \<not> have_seen_terminal_1 s
               then assert_maybe_buffer_data s else Inr s) of
           Inl e \<Rightarrow> Inl e
         | Inr s1 \<Rightarrow>
             if FormatR8_is_end_of_record s1 then Inr (True, b, n, s1)
             else (case FormatR8_read_bit s1 of
                     Inl e \<Rightarrow> Inl e
                   | Inr (bit_read, s2) \<Rightarrow>
                       FormatR8_bit_loop (k + 1) (b OR push_bit k (of_bool bit_read)) (n + 1) s2))
      else Inr (False, b, n, s))"
  by pat_completeness auto
termination
  by (relation "measure (\<lambda>(k, b, n, s). 8 - k)") auto

declare FormatR8_bit_loop.simps [simp del]

fun FormatR8_byte_loop ::
  "byte list \<Rightarrow> nat \<Rightarrow> readerR8 \<Rightarrow> error + (nat \<times> byte list \<times> readerR8)" where
  "FormatR8_byte_loop [] n s = Inr (n, [], s)"
| "FormatR8_byte_loop (b # out) n s =
     (if buffered_0s s \<ge> 8 then
        (case FormatR8_byte_loop out (n + 8)
                (s\<lparr>positionR8 := positionR8 s + 8, buffered_0s := buffered_0s s - 8\<rparr>) of
           Inl e \<Rightarrow> Inl e
         | Inr (n2, out2, s2) \<Rightarrow> Inr (n2, 0 # out2, s2))
      else
        (case FormatR8_bit_loop 0 0 n s of
           Inl e \<Rightarrow> Inl e
         | Inr (returned, b1, n1, s1) \<Rightarrow>
             if returned then Inr (n1, b1 # out, s1)
             else (case FormatR8_byte_loop out n1 s1 of
                     Inl e \<Rightarrow> Inl e
                   | Inr (n2, out2, s2) \<Rightarrow> Inr (n2, b1 # out2, s2))))"

definition FormatR8_read_bits_into_bytes ::
  "readerR8 \<Rightarrow> byte list \<Rightarrow> error + (nat \<times> byte list \<times> readerR8)" where
  "FormatR8_read_bits_into_bytes s out_buffer = FormatR8_byte_loop out_buffer 0 s"

subsection \<open>DETS format\<close>

record readerDets =
  inDets :: stream
  bufferDets :: "bool list"
  position_in_bufferDets :: nat
  m_bits_per_record :: nat
  d_bits_per_record :: nat
  l_bits_per_record :: nat

text \<open>
  The three widths are \<^verbatim>\<open>size_t\<close> values and the source adds them in \<^verbatim>\<open>size_t\<close>: every sum
  of widths below is taken modulo \<open>2 ^ 64\<close> (\<open>uint64\<close>), in the constructor, in \<^verbatim>\<open>read_bit\<close>,
  \<^verbatim>\<open>start_record\<close>, \<^verbatim>\<open>is_end_of_record\<close> and \<^verbatim>\<open>current_result_type\<close>. Adding two wrapped sums
  and wrapping again is wrapping the sum of the three. The bit buffer has as many bits as
  the wrapped sum says.
\<close>

definition FormatDets :: "stream \<Rightarrow> nat \<Rightarrow> nat \<Rightarrow> nat \<Rightarrow> readerDets" where
  "FormatDets i n_measurements n_detection_events n_logical_observables =
     \<lparr>inDets = i,
      bufferDets =
        replicate (uint64 (n_measurements + n_detection_events + n_logical_observables)) False,
      position_in_bufferDets =
        uint64 (n_measurements + n_detection_events + n_logical_observables),
      m_bits_per_record = n_measurements,
      d_bits_per_record = n_detection_events,
      l_bits_per_record = n_logical_observables\<rparr>"

definition FormatDets_read_bit :: "readerDets \<Rightarrow> error + (bool \<times> readerDets)" where
  "FormatDets_read_bit s =
     (if position_in_bufferDets s
           \<ge> uint64 (m_bits_per_record s + d_bits_per_record s + l_bits_per_record s)
      then Inl dets_read_past_end_of_buffer
      else Inr (bufferDets s ! position_in_bufferDets s,
                s\<lparr>position_in_bufferDets := position_in_bufferDets s + 1\<rparr>))"

text \<open>The inner loop \<^verbatim>\<open>while (c == ' ') c = getc(in);\<close> of \<^verbatim>\<open>start_record\<close>.\<close>

function skip_spaces :: "int \<Rightarrow> stream \<Rightarrow> int \<times> stream" where
  "skip_spaces c i = (if c = 32 then (case getc i of (c1, i1) \<Rightarrow> skip_spaces c1 i1) else (c, i))"
  by pat_completeness auto
termination
  apply (relation "measure (\<lambda>(c, i). length i + (if c = 32 then 1 else 0))")
  subgoal by simp
  subgoal premises p for c i
    using p by (cases i) (auto simp: EOF_def)
  done

declare skip_spaces.simps [simp del]

lemma skip_spaces_not_longer: "skip_spaces c i = (c1, i1) \<Longrightarrow> length i1 \<le> length i"
proof (induction c i rule: skip_spaces.induct)
  case (1 c i)
  show ?case
  proof (cases "c = 32")
    case True
    obtain c2 i2 where g: "getc i = (c2, i2)" by (cases "getc i")
    with True "1.prems" have "skip_spaces c2 i2 = (c1, i1)"
      by (simp add: skip_spaces.simps [of 32 i])
    from "1.IH" [OF True g [symmetric] this] getc_not_longer [OF g [symmetric]]
    show ?thesis by simp
  next
    case False
    with "1.prems" show ?thesis by (simp add: skip_spaces.simps [of c i])
  qed
qed

text \<open>
  The \<^verbatim>\<open>while (true)\<close> loop of \<^verbatim>\<open>start_record\<close>, from the byte \<open>c\<close> after the keyword. The
  index \<^verbatim>\<open>offset + number\<close> lies inside the buffer unless the sum of the three widths wraps;
  then the source writes outside the bit vector, which C++ leaves undefined, and the model
  leaves the buffer as it is.
\<close>

function FormatDets_read_shot :: "readerDets \<Rightarrow> int \<Rightarrow> error + readerDets" where
  "FormatDets_read_shot s c =
     (let had_spacing = (c = 32)
      in case skip_spaces c (inDets s) of (c1, i1) \<Rightarrow>
        if c1 = 10 \<or> c1 = EOF then Inr (s\<lparr>inDets := i1\<rparr>)
        else if \<not> had_spacing then Inl dets_no_spacing
        else if c1 \<noteq> 77 \<and> c1 \<noteq> 68 \<and> c1 \<noteq> 76 then Inl dets_unrecognized_prefix
        else
          let offset = (if c1 = 77 then 0
                        else if c1 = 68 then m_bits_per_record s
                        else uint64 (m_bits_per_record s + d_bits_per_record s));
              size = (if c1 = 77 then m_bits_per_record s
                      else if c1 = 68 then d_bits_per_record s
                      else l_bits_per_record s)
          in (case read_uint64 i1 c1 False of
                Inl e \<Rightarrow> Inl e
              | Inr (None, c2, i2) \<Rightarrow> Inl dets_no_integer
              | Inr (Some number, c2, i2) \<Rightarrow>
                  if number \<ge> size then Inl dets_value_too_big
                  else FormatDets_read_shot
                         (s\<lparr>inDets := i2,
                            bufferDets := (bufferDets s)
                              [uint64 (offset + number) :=
                                 (bufferDets s ! uint64 (offset + number) \<noteq> True)]\<rparr>)
                         c2))"
  by pat_completeness auto
termination
  apply (relation "measure (\<lambda>(s, c). length (inDets s))")
  subgoal by simp
  subgoal premises p for s c had_spacing c1 i1 offset size r opt rest number c2 i2
  proof -
    from p(2) have "length i1 \<le> length (inDets s)"
      using skip_spaces_not_longer [of c "inDets s" c1 i1] by simp
    moreover from p(8-11) have "read_uint64 i1 c1 False = Inr (Some number, c2, i2)"
      by simp
    from read_uint64_shorter(3) [OF this] have "length i2 < length i1"
      by simp
    ultimately show ?thesis by simp
  qed
  done

declare FormatDets_read_shot.simps [simp del]

definition FormatDets_start_record :: "readerDets \<Rightarrow> error + (bool \<times> readerDets)" where
  "FormatDets_start_record s =
     (case maybe_consume_keyword (inDets s) ''shot'' of
        Inl e \<Rightarrow> Inl e
      | Inr (found, c, i) \<Rightarrow>
          if \<not> found then Inr (False, s\<lparr>inDets := i\<rparr>)
          else (case FormatDets_read_shot
                       (s\<lparr>inDets := i, bufferDets := replicate (length (bufferDets s)) False,
                          position_in_bufferDets := 0\<rparr>) c of
                  Inl e \<Rightarrow> Inl e
                | Inr s1 \<Rightarrow> Inr (True, s1)))"

definition FormatDets_next_record :: "readerDets \<Rightarrow> error + (bool \<times> readerDets)" where
  "FormatDets_next_record s = FormatDets_start_record s"

definition FormatDets_is_end_of_record :: "readerDets \<Rightarrow> bool" where
  "FormatDets_is_end_of_record s \<longleftrightarrow>
     position_in_bufferDets s
       = uint64 (m_bits_per_record s + d_bits_per_record s + l_bits_per_record s)"

definition FormatDets_current_result_type :: "readerDets \<Rightarrow> char" where
  "FormatDets_current_result_type s =
     (if position_in_bufferDets s < m_bits_per_record s \<and> m_bits_per_record s \<noteq> 0 then CHR ''M''
      else if position_in_bufferDets s < uint64 (m_bits_per_record s + d_bits_per_record s)
              \<and> d_bits_per_record s \<noteq> 0 then CHR ''D''
      else if l_bits_per_record s \<noteq> 0 then CHR ''L''
      else if d_bits_per_record s \<noteq> 0 then CHR ''D''
      else CHR ''M'')"

definition FormatDets_read_bits_into_bytes ::
  "readerDets \<Rightarrow> byte list \<Rightarrow> error + (nat \<times> byte list \<times> readerDets)" where
  "FormatDets_read_bits_into_bytes =
     MeasureRecordReader_read_bits_into_bytes FormatDets_read_bit
       (\<lambda>s. Inr (FormatDets_is_end_of_record s)) FormatDets_current_result_type"

subsection \<open>Repeated \<^verbatim>\<open>read_bit\<close>\<close>

text \<open>\<open>read_bits read_bit n s\<close>: \<open>n\<close> successive calls of \<^verbatim>\<open>read_bit\<close> on the decoder \<open>s\<close>,
  collecting the bits returned; the first exception ends the run.\<close>

fun read_bits ::
  "('s \<Rightarrow> error + (bool \<times> 's)) \<Rightarrow> nat \<Rightarrow> 's \<Rightarrow> error + (bool list \<times> 's)" where
  "read_bits read_bit 0 s = Inr ([], s)"
| "read_bits read_bit (Suc n) s =
     (case read_bit s of
        Inl e \<Rightarrow> Inl e
      | Inr (b, s1) \<Rightarrow>
          (case read_bits read_bit n s1 of
             Inl e \<Rightarrow> Inl e
           | Inr (bs, s2) \<Rightarrow> Inr (b # bs, s2)))"

text \<open>The order \<open>M < D < L\<close> of the result-type labels.\<close>

definition result_type_rank :: "char \<Rightarrow> nat" where
  "result_type_rank c = (if c = CHR ''M'' then 0 else if c = CHR ''D'' then 1 else 2)"

text \<open>The members of a Hits or DETS decoder other than \<^verbatim>\<open>position_in_buffer\<close>.\<close>

definition kept_by_Hits_read_bit :: "readerHits \<Rightarrow> stream \<times> nat \<times> bool list" where
  "kept_by_Hits_read_bit s = (inHits s, bits_per_recordHits s, bufferHits s)"

definition kept_by_Dets_read_bit :: "readerDets \<Rightarrow> stream \<times> nat \<times> nat \<times> nat \<times> bool list" where
  "kept_by_Dets_read_bit s =
     (inDets s, m_bits_per_record s, d_bits_per_record s, l_bits_per_record s, bufferDets s)"

subsection \<open>Bits of the output buffer\<close>

text \<open>
  The bits of a byte, least significant first, and of a list of bytes: bit \<open>8 * i + j\<close> of the
  buffer is bit \<open>j\<close> of its byte \<open>i\<close>. \<open>place_bits k bits\<close> is the byte with the given bits at
  the positions \<open>k, k + 1, ...\<close> and zero elsewhere.
\<close>

definition bits_of_byte :: "byte \<Rightarrow> bool list" where
  "bits_of_byte b = map (bit b) [0..<8]"

definition bits_of_bytes :: "byte list \<Rightarrow> bool list" where
  "bits_of_bytes bs = concat (map bits_of_byte bs)"

fun place_bits :: "nat \<Rightarrow> bool list \<Rightarrow> byte" where
  "place_bits k [] = 0"
| "place_bits k (x # xs) = push_bit k (of_bool x) OR place_bits (k + 1) xs"

text \<open>
  Sample decoders inside a record: the 01 decoder with \<open>m = 3\<close> after \<^verbatim>\<open>start_record\<close> on
  \<^verbatim>\<open>"010\n"\<close>, the Hits decoder with \<open>m = 8\<close> after \<^verbatim>\<open>start_record\<close> on
  \<^verbatim>\<open>"0,3,3,5\n\n"\<close>, and the DETS decoder with widths \<open>2, 3, 1\<close> after \<^verbatim>\<open>start_record\<close> on
  \<^verbatim>\<open>"shot M0 D2 L0\nshot\n"\<close>, each at position \<open>p\<close>.
\<close>

definition f01_sample :: reader01 where
  "f01_sample = \<lparr>in01 = [0x31, 0x30, 0x0A], payload01 = 0x30, position01 = 0,
                  bits_per_record01 = 3\<rparr>"

definition hits_sample :: "nat \<Rightarrow> readerHits" where
  "hits_sample p = \<lparr>inHits = [0x0A], bits_per_recordHits = 8,
     bufferHits = [True, False, False, False, False, True, False, False],
     position_in_bufferHits = p\<rparr>"

definition dets_sample :: "nat \<Rightarrow> readerDets" where
  "dets_sample p = \<lparr>inDets = [0x73, 0x68, 0x6F, 0x74, 0x0A],
     bufferDets = [True, False, False, False, True, True], position_in_bufferDets = p,
     m_bits_per_record = 2, d_bits_per_record = 3, l_bits_per_record = 1\<rparr>"

section \<open>Auxiliary facts\<close>

lemma uint64_small: "n < 2 ^ 64 \<Longrightarrow> uint64 n = n"
  by (simp add: uint64_def nat_mod_distrib nat_power_eq flip: zmod_int)


subsection \<open>Repeated reads and the default loops keep what \<^verbatim>\<open>read_bit\<close> keeps\<close>

lemma read_bits_length: "read_bits read_bit n s = Inr (bs, s1) \<Longrightarrow> length bs = n"
  by (induction n arbitrary: s bs) (auto split: sum.splits)

lemma read_bits_preserves:
  assumes step: "\<And>s b s1. read_bit s = Inr (b, s1) \<Longrightarrow> f s1 = f s"
  shows "read_bits read_bit n s = Inr (bs, s2) \<Longrightarrow> f s2 = f s"
proof (induction n arbitrary: s bs)
  case 0
  then show ?case by simp
next
  case (Suc n)
  then obtain b s1 bs1 where r: "read_bit s = Inr (b, s1)" and rest: "read_bits read_bit n s1 = Inr (bs1, s2)"
    by (auto split: sum.splits)
  from Suc.IH [OF rest] step [OF r] show ?case by simp
qed

lemma read_bits_append:
  "read_bits read_bit n s = Inr (xs, s1) \<Longrightarrow> read_bits read_bit m s1 = Inr (ys, s2) \<Longrightarrow>
     read_bits read_bit (n + m) s = Inr (xs @ ys, s2)"
  by (induction n arbitrary: s xs) (auto split: sum.splits)

lemma default_bit_loop_preserves:
  assumes "\<And>s b s1. read_bit s = Inr (b, s1) \<Longrightarrow> f s1 = f s"
    and "default_bit_loop read_bit ie crt rt k b n s = Inr (ret, b1, n1, s1)"
  shows "f s1 = f s"
  using assms
proof (induction read_bit ie crt rt k b n s rule: default_bit_loop.induct)
  case (1 read_bit ie crt rt k b n s)
  note step = "1.prems"(1) and loop = "1.prems"(2)
  show ?case
  proof (cases "k < 8")
    case False
    with loop show ?thesis by (simp add: default_bit_loop.simps [of read_bit ie crt rt k b n s])
  next
    case True
    note unf = default_bit_loop.simps [of read_bit ie crt rt k b n s]
    from True loop obtain x s0 where r: "read_bit s = Inr (x, s0)"
      by (auto simp: unf split: sum.splits)
    with True loop obtain e where e: "ie s0 = Inr e"
      by (auto simp: unf Let_def split: sum.splits)
    show ?thesis
    proof (cases "e \<or> crt s0 \<noteq> rt")
      case True
      with \<open>k < 8\<close> r e loop have "s1 = s0" by (auto simp: unf Let_def)
      with step [OF r] show ?thesis by simp
    next
      case False
      with \<open>k < 8\<close> r e loop
      have "default_bit_loop read_bit ie crt rt (k + 1) (b OR push_bit k (of_bool x)) (n + 1) s0 = Inr (ret, b1, n1, s1)"
        by (auto simp: unf Let_def)
      from "1.IH" [OF \<open>k < 8\<close> r refl refl refl e False step this] step [OF r]
      show ?thesis by simp
    qed
  qed
qed

lemma default_byte_loop_preserves:
  assumes "\<And>s b s1. read_bit s = Inr (b, s1) \<Longrightarrow> f s1 = f s"
    and "default_byte_loop read_bit ie crt rt out n s = Inr (n1, out1, s1)"
  shows "f s1 = f s"
  using assms
proof (induction out arbitrary: n s n1 out1)
  case Nil
  then show ?case by simp
next
  case (Cons b out)
  note step = Cons.prems(1) and loop = Cons.prems(2)
  from loop obtain ret b0 n0 s0 where
    l: "default_bit_loop read_bit ie crt rt 0 0 n s = Inr (ret, b0, n0, s0)"
    by (auto split: sum.splits)
  from default_bit_loop_preserves [where f = f, OF step l] have a: "f s0 = f s" .
  show ?case
  proof (cases ret)
    case True
    with loop l have "s1 = s0" by simp
    with a show ?thesis by simp
  next
    case False
    with loop l obtain n2 out2 where
      "default_byte_loop read_bit ie crt rt out n0 s0 = Inr (n2, out2, s1)"
      by (auto split: sum.splits)
    from Cons.IH [OF step this] a show ?thesis by simp
  qed
qed

lemma default_read_bits_into_bytes_preserves:
  assumes "\<And>s b s1. read_bit s = Inr (b, s1) \<Longrightarrow> f s1 = f s"
    and "MeasureRecordReader_read_bits_into_bytes read_bit ie crt s out = Inr (n1, out1, s1)"
  shows "f s1 = f s"
proof -
  from assms(2) obtain e where e: "ie s = Inr e"
    by (auto simp: MeasureRecordReader_read_bits_into_bytes_def split: sum.splits)
  show ?thesis
  proof (cases e)
    case True
    with assms(2) e show ?thesis
      by (simp add: MeasureRecordReader_read_bits_into_bytes_def)
  next
    case False
    with assms(2) e have "default_byte_loop read_bit ie crt (crt s) out 0 s = Inr (n1, out1, s1)"
      by (simp add: MeasureRecordReader_read_bits_into_bytes_def)
    from default_byte_loop_preserves [where f = f, OF assms(1) this] show ?thesis .
  qed
qed

lemma FormatHits_read_bit_frame:
  "FormatHits_read_bit s = Inr (b, s1) \<Longrightarrow>
     s1 = s\<lparr>position_in_bufferHits := position_in_bufferHits s + 1\<rparr>
     \<and> b = bufferHits s ! position_in_bufferHits s
     \<and> position_in_bufferHits s < bits_per_recordHits s"
  by (auto simp: FormatHits_read_bit_def split: if_splits)

lemma FormatDets_read_bit_frame:
  "FormatDets_read_bit s = Inr (b, s1) \<Longrightarrow>
     s1 = s\<lparr>position_in_bufferDets := position_in_bufferDets s + 1\<rparr>
     \<and> b = bufferDets s ! position_in_bufferDets s
     \<and> position_in_bufferDets s
           < uint64 (m_bits_per_record s + d_bits_per_record s + l_bits_per_record s)"
  by (auto simp: FormatDets_read_bit_def split: if_splits)

text \<open>The part of a Hits decoder that \<^verbatim>\<open>read_bit\<close> leaves alone.\<close>

lemma FormatHits_start_record_position:
  assumes "inHits t = inHits s" "bits_per_recordHits t = bits_per_recordHits s"
    "length (bufferHits t) = length (bufferHits s)"
  shows "inHits s \<noteq> [] \<Longrightarrow> FormatHits_start_record t = FormatHits_start_record s"
proof -
  assume ne: "inHits s \<noteq> []"
  obtain c i where g: "getc (inHits s) = (c, i)" by (cases "getc (inHits s)")
  with ne getc_at_end [of c i "inHits s"] have c: "(c = EOF) = False" by auto
  have eq: "t\<lparr>inHits := i, bufferHits := replicate (length (bufferHits s)) False,
              position_in_bufferHits := 0\<rparr> =
            s\<lparr>inHits := i, bufferHits := replicate (length (bufferHits s)) False,
              position_in_bufferHits := 0\<rparr>"
    using assms by simp
  show "FormatHits_start_record t = FormatHits_start_record s"
    unfolding FormatHits_start_record_def assms(1) assms(3) g prod.case c if_False eq
    by (rule refl)
qed

lemma FormatDets_start_record_position:
  assumes "inDets t = inDets s" "m_bits_per_record t = m_bits_per_record s"
    "d_bits_per_record t = d_bits_per_record s" "l_bits_per_record t = l_bits_per_record s"
    "length (bufferDets t) = length (bufferDets s)"
  shows "inDets s \<noteq> [] \<Longrightarrow> FormatDets_start_record t = FormatDets_start_record s"
proof -
  assume ne: "inDets s \<noteq> []"
  obtain c i where g: "getc (inDets s) = (c, i)" by (cases "getc (inDets s)")
  with ne getc_at_end [of c i "inDets s"] have c: "c \<noteq> EOF" by auto
  have eq: "\<And>i. t\<lparr>inDets := i, bufferDets := replicate (length (bufferDets s)) False,
              position_in_bufferDets := 0\<rparr> =
            s\<lparr>inDets := i, bufferDets := replicate (length (bufferDets s)) False,
              position_in_bufferDets := 0\<rparr>"
    using assms by simp
  have found: "\<And>found c1 i1. maybe_consume_keyword (inDets s) ''shot'' = Inr (found, c1, i1) \<Longrightarrow> found"
    using g c by (auto simp: maybe_consume_keyword_def split: sum.splits)
  show "FormatDets_start_record t = FormatDets_start_record s"
    unfolding FormatDets_start_record_def assms(1) assms(5) eq
    using found by (auto split: sum.splits)
qed

subsection \<open>The default \<^verbatim>\<open>read_bits_into_bytes\<close> packs the bits that \<^verbatim>\<open>read_bit\<close> returns\<close>

lemma bit_or_push_bit_byte:
  "bit (b OR push_bit k (of_bool x) :: byte) j \<longleftrightarrow> bit b j \<or> (j = k \<and> x \<and> k < 8)"
  by (auto simp: bit_or_iff bit_push_bit_iff bit_of_bool_iff bit_simps)

lemma length_bits_of_byte [simp]: "length (bits_of_byte b) = 8"
  by (simp add: bits_of_byte_def)

lemma length_bits_of_bytes [simp]: "length (bits_of_bytes bs) = 8 * length bs"
  by (induction bs) (simp_all add: bits_of_bytes_def)

lemma bits_of_bytes_Cons: "bits_of_bytes (b # bs) = bits_of_byte b @ bits_of_bytes bs"
  by (simp add: bits_of_bytes_def)

lemma bits_of_bytes_Nil [simp]: "bits_of_bytes [] = []"
  by (simp add: bits_of_bytes_def)

lemma nth_bits_of_byte: "j < 8 \<Longrightarrow> bits_of_byte b ! j = bit b j"
  by (simp add: bits_of_byte_def)

lemma nth_bits_of_bytes:
  "i < length bs \<Longrightarrow> j < 8 \<Longrightarrow> bits_of_bytes bs ! (8 * i + j) = bit (bs ! i) j"
proof (induction bs arbitrary: i)
  case Nil
  then show ?case by simp
next
  case (Cons b bs)
  show ?case
  proof (cases i)
    case 0
    with Cons.prems show ?thesis
      by (simp add: bits_of_bytes_Cons nth_append nth_bits_of_byte)
  next
    case (Suc i')
    with Cons.prems have "bits_of_bytes bs ! (8 * i' + j) = bit (bs ! i') j"
      by (intro Cons.IH) simp_all
    with Suc show ?thesis
      by (simp add: bits_of_bytes_Cons nth_append)
  qed
qed

lemma bit_place_bits:
  "bit (place_bits k bits) j \<longleftrightarrow> k \<le> j \<and> j < k + length bits \<and> j < 8 \<and> bits ! (j - k)"
proof (induction bits arbitrary: k)
  case Nil
  then show ?case by simp
next
  case (Cons x xs)
  show ?case
  proof (cases "j = k")
    case True
    from Cons.IH [of "k + 1"] True have "\<not> bit (place_bits (k + 1) xs) j" by simp
    with True show ?thesis
      by (auto simp: bit_or_iff bit_push_bit_iff bit_of_bool_iff)
  next
    case False
    then have "j < k \<or> (j - k = Suc (j - (k + 1)) \<and> k + 1 \<le> j)" by arith
    then show ?thesis
    proof
      assume "j < k"
      then show ?thesis
        by (simp add: bit_or_iff bit_push_bit_iff bit_of_bool_iff Cons.IH)
    next
      assume a: "j - k = Suc (j - (k + 1)) \<and> k + 1 \<le> j"
      then have "(x # xs) ! (j - k) = xs ! (j - (k + 1))" by simp
      with a False show ?thesis
        by (auto simp: bit_or_iff bit_push_bit_iff bit_of_bool_iff Cons.IH)
    qed
  qed
qed

lemma default_bit_loop_reads:
  assumes "default_bit_loop read_bit ie crt rt k b n s = Inr (ret, b1, n1, s1)" and "k \<le> 8"
  shows "\<exists>bits. read_bits read_bit (length bits) s = Inr (bits, s1) \<and> n1 = n + length bits
           \<and> k + length bits \<le> 8 \<and> (ret \<longrightarrow> bits \<noteq> []) \<and> (\<not> ret \<longrightarrow> k + length bits = 8)
           \<and> b1 = b OR place_bits k bits"
  using assms
proof (induction read_bit ie crt rt k b n s rule: default_bit_loop.induct)
  case (1 read_bit ie crt rt k b n s)
  note loop = "1.prems"(1)
  note unf = default_bit_loop.simps [of read_bit ie crt rt k b n s]
  show ?case
  proof (cases "k < 8")
    case False
    with loop "1.prems"(2) have res: "ret = False" "b1 = b" "n1 = n" "s1 = s" "k = 8"
      by (auto simp: unf)
    then show ?thesis by (intro exI [of _ "[]"]) simp
  next
    case True
    from True loop obtain x s0 where r: "read_bit s = Inr (x, s0)"
      by (auto simp: unf split: sum.splits)
    with True loop obtain e where e: "ie s0 = Inr e"
      by (auto simp: unf Let_def split: sum.splits)
    show ?thesis
    proof (cases "e \<or> crt s0 \<noteq> rt")
      case stop: True
      with True r e loop have res: "ret" "b1 = b OR push_bit k (of_bool x)" "n1 = n + 1" "s1 = s0"
        by (auto simp: unf Let_def)
      with r True show ?thesis
        by (intro exI [of _ "[x]"]) simp
    next
      case False
      with True r e loop
      have rec: "default_bit_loop read_bit ie crt rt (k + 1) (b OR push_bit k (of_bool x)) (n + 1) s0
                 = Inr (ret, b1, n1, s1)"
        by (auto simp: unf Let_def)
      from True have k1: "k + 1 \<le> 8" by simp
      from "1.IH" [OF True r refl refl refl e False rec k1]
      obtain bits where ih: "read_bits read_bit (length bits) s0 = Inr (bits, s1)"
        "n1 = n + 1 + length bits" "k + 1 + length bits \<le> 8" "ret \<longrightarrow> bits \<noteq> []"
        "\<not> ret \<longrightarrow> k + 1 + length bits = 8"
        "b1 = (b OR push_bit k (of_bool x)) OR place_bits (k + 1) bits"
        by blast
      from r ih(1) have rd: "read_bits read_bit (length (x # bits)) s = Inr (x # bits, s1)" by simp
      from ih(6) have pl: "b1 = b OR place_bits k (x # bits)" by (simp add: or.assoc)
      from ih(2) have n1: "n1 = n + length (x # bits)" by simp
      from ih(3) have le: "k + length (x # bits) \<le> 8" by simp
      from ih(5) have nr: "\<not> ret \<longrightarrow> k + length (x # bits) = 8" by simp
      have ne: "ret \<longrightarrow> x # bits \<noteq> []" by simp
      from rd n1 le ne nr pl show ?thesis by blast
    qed
  qed
qed

lemma default_bit_loop_byte:
  assumes "default_bit_loop read_bit ie crt rt 0 0 n s = Inr (ret, b1, n1, s1)"
  shows "\<exists>bits. read_bits read_bit (length bits) s = Inr (bits, s1) \<and> n1 = n + length bits
           \<and> length bits \<le> 8 \<and> (ret \<longrightarrow> bits \<noteq> []) \<and> (\<not> ret \<longrightarrow> length bits = 8)
           \<and> bits_of_byte b1 = bits @ replicate (8 - length bits) False"
proof -
  from default_bit_loop_reads [OF assms] obtain bits where
    b: "read_bits read_bit (length bits) s = Inr (bits, s1)" "n1 = n + length bits"
       "length bits \<le> 8" "ret \<longrightarrow> bits \<noteq> []" "\<not> ret \<longrightarrow> length bits = 8"
       "b1 = 0 OR place_bits 0 bits"
    by auto
  then have b6: "\<forall>j. j < 8 \<longrightarrow> bit b1 j = (j < length bits \<and> bits ! j)"
    by (simp add: bit_place_bits)
  have "bits_of_byte b1 = bits @ replicate (8 - length bits) False"
  proof (rule nth_equalityI)
    from b(3) show "length (bits_of_byte b1) = length (bits @ replicate (8 - length bits) False)"
      by simp
  next
    fix j assume "j < length (bits_of_byte b1)"
    then have "j < 8" by simp
    with b6 show "bits_of_byte b1 ! j = (bits @ replicate (8 - length bits) False) ! j"
      by (simp add: nth_bits_of_byte nth_append)
  qed
  with b(1-5) show ?thesis by blast
qed



lemma default_byte_loop_reads:
  assumes "default_byte_loop read_bit ie crt rt out n s = Inr (n1, out1, s1)"
  shows "\<exists>bits. read_bits read_bit (length bits) s = Inr (bits, s1) \<and> n1 = n + length bits
           \<and> length out1 = length out \<and> length bits \<le> 8 * length out
           \<and> bits_of_bytes (take ((length bits + 7) div 8) out1) =
               bits @ replicate (8 * ((length bits + 7) div 8) - length bits) False
           \<and> drop ((length bits + 7) div 8) out1 = drop ((length bits + 7) div 8) out"
  using assms
proof (induction out arbitrary: n s n1 out1)
  case Nil
  then show ?case by (intro exI [of _ "[]"]) simp
next
  case (Cons b out)
  note loop = Cons.prems
  from loop obtain ret b0 n0 s0 where
    l: "default_bit_loop read_bit ie crt rt 0 0 n s = Inr (ret, b0, n0, s0)"
    by (auto split: sum.splits)
  from default_bit_loop_byte [OF l] obtain bits0 where
    b0: "read_bits read_bit (length bits0) s = Inr (bits0, s0)" "n0 = n + length bits0"
        "length bits0 \<le> 8" "ret \<longrightarrow> bits0 \<noteq> []" "\<not> ret \<longrightarrow> length bits0 = 8"
        "bits_of_byte b0 = bits0 @ replicate (8 - length bits0) False"
    by blast
  show ?case
  proof (cases ret)
    case True
    with loop l have res: "n1 = n0" "out1 = b0 # out" "s1 = s0" by simp_all
    from True b0(3,4) have one: "(length bits0 + 7) div 8 = 1"
      by (cases bits0) auto
    from res b0 one show ?thesis
      by (intro exI [of _ bits0]) (simp add: bits_of_bytes_Cons)
  next
    case False
    with loop l obtain n2 out2 where
      rec: "default_byte_loop read_bit ie crt rt out n0 s0 = Inr (n2, out2, s1)"
      and res: "n1 = n2" "out1 = b0 # out2"
      by (auto split: sum.splits)
    from Cons.IH [OF rec] obtain bits where
      ih: "read_bits read_bit (length bits) s0 = Inr (bits, s1)" "n2 = n0 + length bits"
          "length out2 = length out" "length bits \<le> 8 * length out"
          "bits_of_bytes (take ((length bits + 7) div 8) out2) =
               bits @ replicate (8 * ((length bits + 7) div 8) - length bits) False"
          "drop ((length bits + 7) div 8) out2 = drop ((length bits + 7) div 8) out"
      by blast
    from False b0(5) have l8: "length bits0 = 8" by simp
    then have nb: "(length (bits0 @ bits) + 7) div 8 = Suc ((length bits + 7) div 8)" by simp
    from read_bits_append [OF b0(1) ih(1)]
    have rd: "read_bits read_bit (length (bits0 @ bits)) s = Inr (bits0 @ bits, s1)" by simp
    have pk: "bits_of_bytes (take ((length (bits0 @ bits) + 7) div 8) out1) =
               (bits0 @ bits) @ replicate (8 * ((length (bits0 @ bits) + 7) div 8) - length (bits0 @ bits)) False"
      unfolding nb res(2) using b0(6) ih(5) l8 by (simp add: bits_of_bytes_Cons)
    have dr: "drop ((length (bits0 @ bits) + 7) div 8) out1 = drop ((length (bits0 @ bits) + 7) div 8) (b # out)"
      unfolding nb res(2) using ih(6) by simp
    from rd pk dr res b0(2) ih(2,3,4) l8 show ?thesis
      by (intro exI [of _ "bits0 @ bits"]) simp
  qed
qed

lemma default_read_bits_into_bytes_reads:
  assumes "MeasureRecordReader_read_bits_into_bytes read_bit ie crt s out = Inr (n, out1, s1)"
  shows "\<exists>bits. read_bits read_bit n s = Inr (bits, s1) \<and> length bits = n
           \<and> length out1 = length out \<and> n \<le> 8 * length out
           \<and> bits_of_bytes (take ((n + 7) div 8) out1) = bits @ replicate (8 * ((n + 7) div 8) - n) False
           \<and> drop ((n + 7) div 8) out1 = drop ((n + 7) div 8) out"
proof -
  from assms obtain e where e: "ie s = Inr e"
    by (auto simp: MeasureRecordReader_read_bits_into_bytes_def split: sum.splits)
  show ?thesis
  proof (cases e)
    case True
    with assms e have "n = 0" "out1 = out" "s1 = s"
      by (simp_all add: MeasureRecordReader_read_bits_into_bytes_def)
    then show ?thesis by (intro exI [of _ "[]"]) simp
  next
    case False
    with assms e have "default_byte_loop read_bit ie crt (crt s) out 0 s = Inr (n, out1, s1)"
      by (simp add: MeasureRecordReader_read_bits_into_bytes_def)
    from default_byte_loop_reads [OF this] show ?thesis by auto
  qed
qed

section \<open>Scenarios of the R8 format\<close>

text \<open>
  Claim C1, as stated, fails in either build: with \<open>m = 5\<close> on the bytes \<open>02 01 01 00\<close>,
  \<^verbatim>\<open>start_record\<close> succeeds and three bits \<open>0,0,1\<close> are read, but the fourth \<^verbatim>\<open>read_bit\<close>
  throws. With assertions compiled in it buffers the run \<open>01\<close>, whose one-bit lands on the
  last position of the record, and finds the byte \<open>01\<close> where the terminator \<open>00\<close> is
  required. Under \<^verbatim>\<open>NDEBUG\<close> it buffers nothing and finds both run counters empty. Five
  calls of \<^verbatim>\<open>read_bit\<close> do not return five bits.
\<close>

theorem C1_counterexample:
  "FormatR8_start_record (FormatR8 False [0x02, 0x01, 0x01, 0x00] 5) =
     Inr (True, \<lparr>NDEBUG = False, inR8 = [0x01, 0x01, 0x00], bits_per_recordR8 = 5, positionR8 = 0,
                 have_seen_terminal_1 = False, buffered_0s = 2, buffered_1s = 1\<rparr>)
   \<and> read_bits FormatR8_read_bit 3
        \<lparr>NDEBUG = False, inR8 = [0x01, 0x01, 0x00], bits_per_recordR8 = 5, positionR8 = 0,
         have_seen_terminal_1 = False, buffered_0s = 2, buffered_1s = 1\<rparr> =
     Inr ([False, False, True],
          \<lparr>NDEBUG = False, inR8 = [0x01, 0x01, 0x00], bits_per_recordR8 = 5, positionR8 = 3,
           have_seen_terminal_1 = False, buffered_0s = 0, buffered_1s = 0\<rparr>)
   \<and> FormatR8_read_bit
        \<lparr>NDEBUG = False, inR8 = [0x01, 0x01, 0x00], bits_per_recordR8 = 5, positionR8 = 3,
         have_seen_terminal_1 = False, buffered_0s = 0, buffered_1s = 0\<rparr> =
     Inl r8_no_terminator_before_more_data
   \<and> read_bits FormatR8_read_bit 5
        \<lparr>NDEBUG = False, inR8 = [0x01, 0x01, 0x00], bits_per_recordR8 = 5, positionR8 = 0,
         have_seen_terminal_1 = False, buffered_0s = 2, buffered_1s = 1\<rparr> =
     Inl r8_no_terminator_before_more_data
   \<and> FormatR8_start_record (FormatR8 True [0x02, 0x01, 0x01, 0x00] 5) =
     Inr (True, \<lparr>NDEBUG = True, inR8 = [0x01, 0x01, 0x00], bits_per_recordR8 = 5, positionR8 = 0,
                 have_seen_terminal_1 = False, buffered_0s = 2, buffered_1s = 1\<rparr>)
   \<and> read_bits FormatR8_read_bit 3
        \<lparr>NDEBUG = True, inR8 = [0x01, 0x01, 0x00], bits_per_recordR8 = 5, positionR8 = 0,
         have_seen_terminal_1 = False, buffered_0s = 2, buffered_1s = 1\<rparr> =
     Inr ([False, False, True],
          \<lparr>NDEBUG = True, inR8 = [0x01, 0x01, 0x00], bits_per_recordR8 = 5, positionR8 = 3,
           have_seen_terminal_1 = False, buffered_0s = 0, buffered_1s = 0\<rparr>)
   \<and> FormatR8_read_bit
        \<lparr>NDEBUG = True, inR8 = [0x01, 0x01, 0x00], bits_per_recordR8 = 5, positionR8 = 3,
         have_seen_terminal_1 = False, buffered_0s = 0, buffered_1s = 0\<rparr> =
     Inl r8_read_past_end_of_record
   \<and> read_bits FormatR8_read_bit 5
        \<lparr>NDEBUG = True, inR8 = [0x01, 0x01, 0x00], bits_per_recordR8 = 5, positionR8 = 0,
         have_seen_terminal_1 = False, buffered_0s = 2, buffered_1s = 1\<rparr> =
     Inl r8_read_past_end_of_record"
  by code_simp

text \<open>
  Claim C1, amended: in a build with assertions compiled in (\<^verbatim>\<open>NDEBUG\<close> not defined), with
  \<open>m = 5\<close> the bits \<open>0,0,1,0,1\<close> are the bytes \<open>02 01 00\<close>. On them \<^verbatim>\<open>start_record\<close> succeeds,
  five calls of \<^verbatim>\<open>read_bit\<close> return \<open>0,0,1,0,1\<close>, then \<^verbatim>\<open>is_end_of_record\<close> is true and the
  stream is exhausted: the trailing \<open>00\<close> was consumed by the fourth \<^verbatim>\<open>read_bit\<close> as the
  terminator of the one-bit on the last position. No call throws.
\<close>

theorem C1_r8_one_on_last_bit:
  "NDEBUG (FormatR8 False [0x02, 0x01, 0x00] 5) = False
   \<and> FormatR8_start_record (FormatR8 False [0x02, 0x01, 0x00] 5) =
     Inr (True, \<lparr>NDEBUG = False, inR8 = [0x01, 0x00], bits_per_recordR8 = 5, positionR8 = 0,
                 have_seen_terminal_1 = False, buffered_0s = 2, buffered_1s = 1\<rparr>)
   \<and> read_bits FormatR8_read_bit 3
        \<lparr>NDEBUG = False, inR8 = [0x01, 0x00], bits_per_recordR8 = 5, positionR8 = 0,
         have_seen_terminal_1 = False, buffered_0s = 2, buffered_1s = 1\<rparr> =
     Inr ([False, False, True],
          \<lparr>NDEBUG = False, inR8 = [0x01, 0x00], bits_per_recordR8 = 5, positionR8 = 3,
           have_seen_terminal_1 = False, buffered_0s = 0, buffered_1s = 0\<rparr>)
   \<and> FormatR8_read_bit
        \<lparr>NDEBUG = False, inR8 = [0x01, 0x00], bits_per_recordR8 = 5, positionR8 = 3,
         have_seen_terminal_1 = False, buffered_0s = 0, buffered_1s = 0\<rparr> =
     Inr (False, \<lparr>NDEBUG = False, inR8 = [], bits_per_recordR8 = 5, positionR8 = 4,
                  have_seen_terminal_1 = True, buffered_0s = 0, buffered_1s = 1\<rparr>)
   \<and> read_bits FormatR8_read_bit 5
        \<lparr>NDEBUG = False, inR8 = [0x01, 0x00], bits_per_recordR8 = 5, positionR8 = 0,
         have_seen_terminal_1 = False, buffered_0s = 2, buffered_1s = 1\<rparr> =
     Inr ([False, False, True, False, True],
          \<lparr>NDEBUG = False, inR8 = [], bits_per_recordR8 = 5, positionR8 = 5,
           have_seen_terminal_1 = True, buffered_0s = 0, buffered_1s = 0\<rparr>)
   \<and> FormatR8_is_end_of_record
        \<lparr>NDEBUG = False, inR8 = [], bits_per_recordR8 = 5, positionR8 = 5,
         have_seen_terminal_1 = True, buffered_0s = 0, buffered_1s = 0\<rparr>"
  by code_simp

text \<open>
  The amended claim is about the build with assertions only. In the source the refill of the
  run counters is the argument of \<^verbatim>\<open>assert\<close>, so under \<^verbatim>\<open>NDEBUG\<close> neither \<^verbatim>\<open>read_bit\<close> nor
  \<^verbatim>\<open>read_bits_into_bytes\<close> ever refills them: on the same bytes \<open>02 01 00\<close> the first run
  \<open>0,0,1\<close> is read and the fourth \<^verbatim>\<open>read_bit\<close> throws, and \<^verbatim>\<open>read_bits_into_bytes\<close> throws
  likewise.
\<close>

lemma r8_refill_lost_under_NDEBUG:
  "FormatR8_start_record (FormatR8 True [0x02, 0x01, 0x00] 5) =
     Inr (True, \<lparr>NDEBUG = True, inR8 = [0x01, 0x00], bits_per_recordR8 = 5, positionR8 = 0,
                 have_seen_terminal_1 = False, buffered_0s = 2, buffered_1s = 1\<rparr>)
   \<and> read_bits FormatR8_read_bit 3
        \<lparr>NDEBUG = True, inR8 = [0x01, 0x00], bits_per_recordR8 = 5, positionR8 = 0,
         have_seen_terminal_1 = False, buffered_0s = 2, buffered_1s = 1\<rparr> =
     Inr ([False, False, True],
          \<lparr>NDEBUG = True, inR8 = [0x01, 0x00], bits_per_recordR8 = 5, positionR8 = 3,
           have_seen_terminal_1 = False, buffered_0s = 0, buffered_1s = 0\<rparr>)
   \<and> FormatR8_read_bit
        \<lparr>NDEBUG = True, inR8 = [0x01, 0x00], bits_per_recordR8 = 5, positionR8 = 3,
         have_seen_terminal_1 = False, buffered_0s = 0, buffered_1s = 0\<rparr> =
     Inl r8_read_past_end_of_record
   \<and> FormatR8_read_bits_into_bytes
        \<lparr>NDEBUG = True, inR8 = [0x01, 0x00], bits_per_recordR8 = 5, positionR8 = 0,
         have_seen_terminal_1 = False, buffered_0s = 2, buffered_1s = 1\<rparr> [0xFF] =
     Inl r8_read_past_end_of_record"
  by code_simp

text \<open>
  Claim C2, as stated, fails in either build: with \<open>m = 5\<close> on the bytes \<open>05 00\<close>,
  \<^verbatim>\<open>start_record\<close> reads the byte \<open>05\<close> only; its one-bit lies just past the end of the
  record, which is the end-of-record mark, and no terminator byte is read. After five zero
  bits \<^verbatim>\<open>is_end_of_record\<close> is true, the byte \<open>00\<close> is still in the stream, and the next
  \<^verbatim>\<open>start_record\<close> consumes it and returns true.
\<close>

theorem C2_counterexample:
  "FormatR8_start_record (FormatR8 False [0x05, 0x00] 5) =
     Inr (True, \<lparr>NDEBUG = False, inR8 = [0x00], bits_per_recordR8 = 5, positionR8 = 0,
                 have_seen_terminal_1 = True, buffered_0s = 5, buffered_1s = 0\<rparr>)
   \<and> read_bits FormatR8_read_bit 5
        \<lparr>NDEBUG = False, inR8 = [0x00], bits_per_recordR8 = 5, positionR8 = 0,
         have_seen_terminal_1 = True, buffered_0s = 5, buffered_1s = 0\<rparr> =
     Inr ([False, False, False, False, False],
          \<lparr>NDEBUG = False, inR8 = [0x00], bits_per_recordR8 = 5, positionR8 = 5,
           have_seen_terminal_1 = True, buffered_0s = 0, buffered_1s = 0\<rparr>)
   \<and> FormatR8_start_record
        \<lparr>NDEBUG = False, inR8 = [0x00], bits_per_recordR8 = 5, positionR8 = 5,
         have_seen_terminal_1 = True, buffered_0s = 0, buffered_1s = 0\<rparr> =
     Inr (True, \<lparr>NDEBUG = False, inR8 = [], bits_per_recordR8 = 5, positionR8 = 0,
                 have_seen_terminal_1 = False, buffered_0s = 0, buffered_1s = 1\<rparr>)
   \<and> FormatR8_start_record (FormatR8 True [0x05, 0x00] 5) =
     Inr (True, \<lparr>NDEBUG = True, inR8 = [0x00], bits_per_recordR8 = 5, positionR8 = 0,
                 have_seen_terminal_1 = True, buffered_0s = 5, buffered_1s = 0\<rparr>)
   \<and> read_bits FormatR8_read_bit 5
        \<lparr>NDEBUG = True, inR8 = [0x00], bits_per_recordR8 = 5, positionR8 = 0,
         have_seen_terminal_1 = True, buffered_0s = 5, buffered_1s = 0\<rparr> =
     Inr ([False, False, False, False, False],
          \<lparr>NDEBUG = True, inR8 = [0x00], bits_per_recordR8 = 5, positionR8 = 5,
           have_seen_terminal_1 = True, buffered_0s = 0, buffered_1s = 0\<rparr>)
   \<and> FormatR8_start_record
        \<lparr>NDEBUG = True, inR8 = [0x00], bits_per_recordR8 = 5, positionR8 = 5,
         have_seen_terminal_1 = True, buffered_0s = 0, buffered_1s = 0\<rparr> =
     Inr (True, \<lparr>NDEBUG = True, inR8 = [], bits_per_recordR8 = 5, positionR8 = 0,
                 have_seen_terminal_1 = False, buffered_0s = 0, buffered_1s = 1\<rparr>)"
  by code_simp

text \<open>
  Claim C2, amended: with \<open>m = 5\<close> five zero bits are the single byte \<open>05\<close>. On it, in either
  build (\<open>ndebug\<close> is any of the two), \<^verbatim>\<open>start_record\<close> succeeds, five calls of \<^verbatim>\<open>read_bit\<close>
  return \<open>0,0,0,0,0\<close>, then \<^verbatim>\<open>is_end_of_record\<close> is true, the whole stream has been consumed
  and the next \<^verbatim>\<open>start_record\<close> returns false.
\<close>

theorem C2_r8_one_past_end:
  "FormatR8_start_record (FormatR8 ndebug [0x05] 5) =
     Inr (True, \<lparr>NDEBUG = ndebug, inR8 = [], bits_per_recordR8 = 5, positionR8 = 0,
                 have_seen_terminal_1 = True, buffered_0s = 5, buffered_1s = 0\<rparr>)
   \<and> read_bits FormatR8_read_bit 5
        \<lparr>NDEBUG = ndebug, inR8 = [], bits_per_recordR8 = 5, positionR8 = 0,
         have_seen_terminal_1 = True, buffered_0s = 5, buffered_1s = 0\<rparr> =
     Inr ([False, False, False, False, False],
          \<lparr>NDEBUG = ndebug, inR8 = [], bits_per_recordR8 = 5, positionR8 = 5,
           have_seen_terminal_1 = True, buffered_0s = 0, buffered_1s = 0\<rparr>)
   \<and> FormatR8_is_end_of_record
        \<lparr>NDEBUG = ndebug, inR8 = [], bits_per_recordR8 = 5, positionR8 = 5,
         have_seen_terminal_1 = True, buffered_0s = 0, buffered_1s = 0\<rparr>
   \<and> FormatR8_start_record
        \<lparr>NDEBUG = ndebug, inR8 = [], bits_per_recordR8 = 5, positionR8 = 5,
         have_seen_terminal_1 = True, buffered_0s = 0, buffered_1s = 0\<rparr> =
     Inr (False, \<lparr>NDEBUG = ndebug, inR8 = [], bits_per_recordR8 = 5, positionR8 = 0,
                  have_seen_terminal_1 = False, buffered_0s = 0, buffered_1s = 0\<rparr>)"
  by (induct ndebug; code_simp)

section \<open>The 01 format\<close>

text \<open>
  Claim C5. With \<open>m = 3\<close> on \<^verbatim>\<open>"010\n111\n"\<close> (bytes \<open>30 31 30 0A 31 31 31 0A\<close>): two
  records decode to \<open>0,1,0\<close> and \<open>1,1,1\<close>, \<^verbatim>\<open>is_end_of_record\<close> is true after each, and the
  third \<^verbatim>\<open>start_record\<close> returns false. On \<^verbatim>\<open>"01\n"\<close> two bits are read, then
  \<^verbatim>\<open>is_end_of_record\<close> throws "ended early" (and a third \<^verbatim>\<open>read_bit\<close> throws too).
  In general \<^verbatim>\<open>is_end_of_record\<close> throws exactly when "the payload is a newline or
  end-of-stream" and "position has reached \<open>m\<close>" disagree: "ended early" in one direction,
  "did not end" in the other; otherwise it returns their common value.
\<close>

theorem C5_f01_records_and_framing:
  "Format01_start_record (Format01 [0x30, 0x31, 0x30, 0x0A, 0x31, 0x31, 0x31, 0x0A] 3) =
     Inr (True, \<lparr>in01 = [0x31, 0x30, 0x0A, 0x31, 0x31, 0x31, 0x0A], payload01 = 0x30,
                 position01 = 0, bits_per_record01 = 3\<rparr>)
   \<and> read_bits Format01_read_bit 3
        \<lparr>in01 = [0x31, 0x30, 0x0A, 0x31, 0x31, 0x31, 0x0A], payload01 = 0x30,
         position01 = 0, bits_per_record01 = 3\<rparr> =
     Inr ([False, True, False],
          \<lparr>in01 = [0x31, 0x31, 0x31, 0x0A], payload01 = 0x0A, position01 = 3,
           bits_per_record01 = 3\<rparr>)
   \<and> Format01_is_end_of_record
        \<lparr>in01 = [0x31, 0x31, 0x31, 0x0A], payload01 = 0x0A, position01 = 3,
         bits_per_record01 = 3\<rparr> = Inr True
   \<and> Format01_start_record
        \<lparr>in01 = [0x31, 0x31, 0x31, 0x0A], payload01 = 0x0A, position01 = 3,
         bits_per_record01 = 3\<rparr> =
     Inr (True, \<lparr>in01 = [0x31, 0x31, 0x0A], payload01 = 0x31, position01 = 0,
                 bits_per_record01 = 3\<rparr>)
   \<and> read_bits Format01_read_bit 3
        \<lparr>in01 = [0x31, 0x31, 0x0A], payload01 = 0x31, position01 = 0,
         bits_per_record01 = 3\<rparr> =
     Inr ([True, True, True],
          \<lparr>in01 = [], payload01 = 0x0A, position01 = 3, bits_per_record01 = 3\<rparr>)
   \<and> Format01_is_end_of_record
        \<lparr>in01 = [], payload01 = 0x0A, position01 = 3, bits_per_record01 = 3\<rparr> = Inr True
   \<and> Format01_start_record
        \<lparr>in01 = [], payload01 = 0x0A, position01 = 3, bits_per_record01 = 3\<rparr> =
     Inr (False, \<lparr>in01 = [], payload01 = EOF, position01 = 0, bits_per_record01 = 3\<rparr>)
   \<and> Format01_start_record (Format01 [0x30, 0x31, 0x0A] 3) =
     Inr (True, \<lparr>in01 = [0x31, 0x0A], payload01 = 0x30, position01 = 0,
                 bits_per_record01 = 3\<rparr>)
   \<and> read_bits Format01_read_bit 2
        \<lparr>in01 = [0x31, 0x0A], payload01 = 0x30, position01 = 0, bits_per_record01 = 3\<rparr> =
     Inr ([False, True],
          \<lparr>in01 = [], payload01 = 0x0A, position01 = 2, bits_per_record01 = 3\<rparr>)
   \<and> Format01_is_end_of_record
        \<lparr>in01 = [], payload01 = 0x0A, position01 = 2, bits_per_record01 = 3\<rparr> =
     Inl f01_ended_early
   \<and> Format01_read_bit
        \<lparr>in01 = [], payload01 = 0x0A, position01 = 2, bits_per_record01 = 3\<rparr> =
     Inl f01_past_end_of_record
   \<and> (Format01_is_end_of_record s = Inl f01_ended_early \<longleftrightarrow>
        (payload01 s = EOF \<or> payload01 s = 0x0A) \<and> position01 s < bits_per_record01 s)
   \<and> (Format01_is_end_of_record s = Inl f01_did_not_end \<longleftrightarrow>
        payload01 s \<noteq> EOF \<and> payload01 s \<noteq> 0x0A \<and> position01 s \<ge> bits_per_record01 s)
   \<and> (Format01_is_end_of_record s = Inr True \<longleftrightarrow>
        (payload01 s = EOF \<or> payload01 s = 0x0A) \<and> position01 s \<ge> bits_per_record01 s)
   \<and> (Format01_is_end_of_record s = Inr False \<longleftrightarrow>
        payload01 s \<noteq> EOF \<and> payload01 s \<noteq> 0x0A \<and> position01 s < bits_per_record01 s)"
proof -
  have run: "Format01_start_record (Format01 [0x30, 0x31, 0x30, 0x0A, 0x31, 0x31, 0x31, 0x0A] 3) =
     Inr (True, \<lparr>in01 = [0x31, 0x30, 0x0A, 0x31, 0x31, 0x31, 0x0A], payload01 = 0x30,
                 position01 = 0, bits_per_record01 = 3\<rparr>)
   \<and> read_bits Format01_read_bit 3
        \<lparr>in01 = [0x31, 0x30, 0x0A, 0x31, 0x31, 0x31, 0x0A], payload01 = 0x30,
         position01 = 0, bits_per_record01 = 3\<rparr> =
     Inr ([False, True, False],
          \<lparr>in01 = [0x31, 0x31, 0x31, 0x0A], payload01 = 0x0A, position01 = 3,
           bits_per_record01 = 3\<rparr>)
   \<and> Format01_is_end_of_record
        \<lparr>in01 = [0x31, 0x31, 0x31, 0x0A], payload01 = 0x0A, position01 = 3,
         bits_per_record01 = 3\<rparr> = Inr True
   \<and> Format01_start_record
        \<lparr>in01 = [0x31, 0x31, 0x31, 0x0A], payload01 = 0x0A, position01 = 3,
         bits_per_record01 = 3\<rparr> =
     Inr (True, \<lparr>in01 = [0x31, 0x31, 0x0A], payload01 = 0x31, position01 = 0,
                 bits_per_record01 = 3\<rparr>)
   \<and> read_bits Format01_read_bit 3
        \<lparr>in01 = [0x31, 0x31, 0x0A], payload01 = 0x31, position01 = 0,
         bits_per_record01 = 3\<rparr> =
     Inr ([True, True, True],
          \<lparr>in01 = [], payload01 = 0x0A, position01 = 3, bits_per_record01 = 3\<rparr>)
   \<and> Format01_is_end_of_record
        \<lparr>in01 = [], payload01 = 0x0A, position01 = 3, bits_per_record01 = 3\<rparr> = Inr True
   \<and> Format01_start_record
        \<lparr>in01 = [], payload01 = 0x0A, position01 = 3, bits_per_record01 = 3\<rparr> =
     Inr (False, \<lparr>in01 = [], payload01 = EOF, position01 = 0, bits_per_record01 = 3\<rparr>)
   \<and> Format01_start_record (Format01 [0x30, 0x31, 0x0A] 3) =
     Inr (True, \<lparr>in01 = [0x31, 0x0A], payload01 = 0x30, position01 = 0,
                 bits_per_record01 = 3\<rparr>)
   \<and> read_bits Format01_read_bit 2
        \<lparr>in01 = [0x31, 0x0A], payload01 = 0x30, position01 = 0, bits_per_record01 = 3\<rparr> =
     Inr ([False, True],
          \<lparr>in01 = [], payload01 = 0x0A, position01 = 2, bits_per_record01 = 3\<rparr>)
   \<and> Format01_is_end_of_record
        \<lparr>in01 = [], payload01 = 0x0A, position01 = 2, bits_per_record01 = 3\<rparr> =
     Inl f01_ended_early
   \<and> Format01_read_bit
        \<lparr>in01 = [], payload01 = 0x0A, position01 = 2, bits_per_record01 = 3\<rparr> =
     Inl f01_past_end_of_record"
    by code_simp
  have early: "Format01_is_end_of_record s = Inl f01_ended_early \<longleftrightarrow>
        (payload01 s = EOF \<or> payload01 s = 0x0A) \<and> position01 s < bits_per_record01 s"
    by (auto simp: Format01_is_end_of_record_def Let_def)
  have late: "Format01_is_end_of_record s = Inl f01_did_not_end \<longleftrightarrow>
        payload01 s \<noteq> EOF \<and> payload01 s \<noteq> 0x0A \<and> position01 s \<ge> bits_per_record01 s"
    by (auto simp: Format01_is_end_of_record_def Let_def)
  have ended: "Format01_is_end_of_record s = Inr True \<longleftrightarrow>
        (payload01 s = EOF \<or> payload01 s = 0x0A) \<and> position01 s \<ge> bits_per_record01 s"
    by (auto simp: Format01_is_end_of_record_def Let_def)
  have going: "Format01_is_end_of_record s = Inr False \<longleftrightarrow>
        payload01 s \<noteq> EOF \<and> payload01 s \<noteq> 0x0A \<and> position01 s < bits_per_record01 s"
    by (auto simp: Format01_is_end_of_record_def Let_def)
  from run early late ended going show ?thesis
    by (elim conjE) (intro conjI; assumption)
qed

section \<open>The DETS format: result types\<close>

text \<open>
  Claim C7, as stated, fails for widths whose sum does not fit \<^verbatim>\<open>size_t\<close>: with the widths
  \<open>2^64 - 1, 2, 0\<close> the constructor's sum wraps to \<open>1\<close>, so the terminus is position \<open>1\<close>.
  There \<^verbatim>\<open>is_end_of_record\<close> is true and \<^verbatim>\<open>current_result_type\<close> returns \<open>M\<close>, because
  \<open>1 < 2^64 - 1\<close>, although the last non-empty section is \<open>D\<close>.
\<close>

theorem C7_counterexample:
  "position_in_bufferDets (FormatDets [] 18446744073709551615 2 0) = 1
   \<and> FormatDets_is_end_of_record (FormatDets [] 18446744073709551615 2 0)
   \<and> d_bits_per_record (FormatDets [] 18446744073709551615 2 0) = 2
   \<and> l_bits_per_record (FormatDets [] 18446744073709551615 2 0) = 0
   \<and> FormatDets_current_result_type (FormatDets [] 18446744073709551615 2 0) = CHR ''M''"
  by (simp add: FormatDets_def FormatDets_is_end_of_record_def FormatDets_current_result_type_def
        uint64_def)

text \<open>
  Claim C7, amended. \<^verbatim>\<open>current_result_type\<close> of the DETS decoder does not depend on the
  stream or on the bit buffer, so it is a function of \<^verbatim>\<open>position_in_buffer\<close> and the three
  widths only. For any widths it is monotone in the position for the order \<open>M < D < L\<close>, and
  it is \<open>M\<close> when the three widths are zero. For widths with \<open>m + d + l < 2^64\<close>, the
  terminus (where \<^verbatim>\<open>is_end_of_record\<close> is true) is position \<open>m + d + l\<close>, there it is the
  label of the last non-empty section, and inside a non-empty section it is the label of
  that section.
\<close>

theorem C7_dets_current_result_type:
  "FormatDets_current_result_type (s\<lparr>inDets := i, bufferDets := buf\<rparr>) =
     FormatDets_current_result_type s
   \<and> (p \<le> q \<longrightarrow>
        result_type_rank (FormatDets_current_result_type (s\<lparr>position_in_bufferDets := p\<rparr>))
        \<le> result_type_rank (FormatDets_current_result_type (s\<lparr>position_in_bufferDets := q\<rparr>)))
   \<and> (m_bits_per_record s = 0 \<and> d_bits_per_record s = 0 \<and> l_bits_per_record s = 0 \<longrightarrow>
        FormatDets_current_result_type s = CHR ''M'')
   \<and> (m_bits_per_record s + d_bits_per_record s + l_bits_per_record s < 2 ^ 64 \<longrightarrow>
        (FormatDets_is_end_of_record s \<longleftrightarrow>
           position_in_bufferDets s
             = m_bits_per_record s + d_bits_per_record s + l_bits_per_record s)
        \<and> FormatDets_current_result_type
            (s\<lparr>position_in_bufferDets :=
                 m_bits_per_record s + d_bits_per_record s + l_bits_per_record s\<rparr>) =
           (if l_bits_per_record s \<noteq> 0 then CHR ''L''
            else if d_bits_per_record s \<noteq> 0 then CHR ''D'' else CHR ''M'')
        \<and> (p < m_bits_per_record s \<longrightarrow>
             FormatDets_current_result_type (s\<lparr>position_in_bufferDets := p\<rparr>) = CHR ''M'')
        \<and> (m_bits_per_record s \<le> p \<and> p < m_bits_per_record s + d_bits_per_record s \<longrightarrow>
             FormatDets_current_result_type (s\<lparr>position_in_bufferDets := p\<rparr>) = CHR ''D'')
        \<and> (m_bits_per_record s + d_bits_per_record s \<le> p
             \<and> p < m_bits_per_record s + d_bits_per_record s + l_bits_per_record s \<longrightarrow>
             FormatDets_current_result_type (s\<lparr>position_in_bufferDets := p\<rparr>) = CHR ''L''))"
proof -
  have 1: "FormatDets_current_result_type (s\<lparr>inDets := i, bufferDets := buf\<rparr>) =
     FormatDets_current_result_type s"
    by (simp add: FormatDets_current_result_type_def)
  have 2: "p \<le> q \<longrightarrow>
        result_type_rank (FormatDets_current_result_type (s\<lparr>position_in_bufferDets := p\<rparr>))
        \<le> result_type_rank (FormatDets_current_result_type (s\<lparr>position_in_bufferDets := q\<rparr>))"
    by (simp add: FormatDets_current_result_type_def result_type_rank_def)
  have 3: "m_bits_per_record s = 0 \<and> d_bits_per_record s = 0 \<and> l_bits_per_record s = 0 \<longrightarrow>
        FormatDets_current_result_type s = CHR ''M''"
    by (simp add: FormatDets_current_result_type_def)
  have 4: "m_bits_per_record s + d_bits_per_record s + l_bits_per_record s < 2 ^ 64 \<longrightarrow>
        (FormatDets_is_end_of_record s \<longleftrightarrow>
           position_in_bufferDets s
             = m_bits_per_record s + d_bits_per_record s + l_bits_per_record s)
        \<and> FormatDets_current_result_type
            (s\<lparr>position_in_bufferDets :=
                 m_bits_per_record s + d_bits_per_record s + l_bits_per_record s\<rparr>) =
           (if l_bits_per_record s \<noteq> 0 then CHR ''L''
            else if d_bits_per_record s \<noteq> 0 then CHR ''D'' else CHR ''M'')
        \<and> (p < m_bits_per_record s \<longrightarrow>
             FormatDets_current_result_type (s\<lparr>position_in_bufferDets := p\<rparr>) = CHR ''M'')
        \<and> (m_bits_per_record s \<le> p \<and> p < m_bits_per_record s + d_bits_per_record s \<longrightarrow>
             FormatDets_current_result_type (s\<lparr>position_in_bufferDets := p\<rparr>) = CHR ''D'')
        \<and> (m_bits_per_record s + d_bits_per_record s \<le> p
             \<and> p < m_bits_per_record s + d_bits_per_record s + l_bits_per_record s \<longrightarrow>
             FormatDets_current_result_type (s\<lparr>position_in_bufferDets := p\<rparr>) = CHR ''L'')"
  proof
    assume b: "m_bits_per_record s + d_bits_per_record s + l_bits_per_record s < 2 ^ 64"
    then have md: "uint64 (m_bits_per_record s + d_bits_per_record s)
                    = m_bits_per_record s + d_bits_per_record s"
      and mdl: "uint64 (m_bits_per_record s + d_bits_per_record s + l_bits_per_record s)
                    = m_bits_per_record s + d_bits_per_record s + l_bits_per_record s"
      by (simp_all add: uint64_small)
    show "(FormatDets_is_end_of_record s \<longleftrightarrow>
           position_in_bufferDets s
             = m_bits_per_record s + d_bits_per_record s + l_bits_per_record s)
        \<and> FormatDets_current_result_type
            (s\<lparr>position_in_bufferDets :=
                 m_bits_per_record s + d_bits_per_record s + l_bits_per_record s\<rparr>) =
           (if l_bits_per_record s \<noteq> 0 then CHR ''L''
            else if d_bits_per_record s \<noteq> 0 then CHR ''D'' else CHR ''M'')
        \<and> (p < m_bits_per_record s \<longrightarrow>
             FormatDets_current_result_type (s\<lparr>position_in_bufferDets := p\<rparr>) = CHR ''M'')
        \<and> (m_bits_per_record s \<le> p \<and> p < m_bits_per_record s + d_bits_per_record s \<longrightarrow>
             FormatDets_current_result_type (s\<lparr>position_in_bufferDets := p\<rparr>) = CHR ''D'')
        \<and> (m_bits_per_record s + d_bits_per_record s \<le> p
             \<and> p < m_bits_per_record s + d_bits_per_record s + l_bits_per_record s \<longrightarrow>
             FormatDets_current_result_type (s\<lparr>position_in_bufferDets := p\<rparr>) = CHR ''L'')"
      by (simp add: FormatDets_current_result_type_def FormatDets_is_end_of_record_def md mdl)
  qed
  from 1 2 3 4 show ?thesis by - (intro conjI; assumption)
qed

theorem C7_dets_current_result_type_witness:
  "FormatDets_current_result_type
     ((FormatDets [0x73] 2 3 1)\<lparr>inDets := [], bufferDets := [True]\<rparr>) =
     FormatDets_current_result_type (FormatDets [0x73] 2 3 1)
   \<and> (1 :: nat) \<le> 3
   \<and> result_type_rank
        (FormatDets_current_result_type ((FormatDets [0x73] 2 3 1)\<lparr>position_in_bufferDets := 1\<rparr>))
      \<le> result_type_rank
        (FormatDets_current_result_type ((FormatDets [0x73] 2 3 1)\<lparr>position_in_bufferDets := 3\<rparr>))
   \<and> m_bits_per_record (FormatDets [0x73] 2 3 1) + d_bits_per_record (FormatDets [0x73] 2 3 1)
       + l_bits_per_record (FormatDets [0x73] 2 3 1) < 2 ^ 64
   \<and> FormatDets_is_end_of_record (FormatDets [0x73] 2 3 1)
   \<and> position_in_bufferDets (FormatDets [0x73] 2 3 1) = 6
   \<and> FormatDets_current_result_type ((FormatDets [0x73] 2 3 1)\<lparr>position_in_bufferDets := 1\<rparr>) = CHR ''M''
   \<and> FormatDets_current_result_type ((FormatDets [0x73] 2 3 1)\<lparr>position_in_bufferDets := 3\<rparr>) = CHR ''D''
   \<and> FormatDets_current_result_type ((FormatDets [0x73] 2 3 1)\<lparr>position_in_bufferDets := 5\<rparr>) = CHR ''L''
   \<and> FormatDets_current_result_type ((FormatDets [0x73] 2 3 1)\<lparr>position_in_bufferDets := 6\<rparr>) = CHR ''L''
   \<and> FormatDets_current_result_type ((FormatDets [0x73] 2 3 0)\<lparr>position_in_bufferDets := 5\<rparr>) = CHR ''D''
   \<and> m_bits_per_record (FormatDets [] 0 0 0) = 0
   \<and> d_bits_per_record (FormatDets [] 0 0 0) = 0
   \<and> l_bits_per_record (FormatDets [] 0 0 0) = 0
   \<and> FormatDets_current_result_type (FormatDets [] 0 0 0) = CHR ''M''"
  using C7_dets_current_result_type [where s = "FormatDets [0x73] 2 3 1" and i = "[]" and buf = "[True]" and p = 1 and q = 3]
    C7_dets_current_result_type [where s = "FormatDets [0x73] 2 3 1" and i = "[]" and buf = "[True]" and p = 3 and q = 3]
    C7_dets_current_result_type [where s = "FormatDets [0x73] 2 3 1" and i = "[]" and buf = "[True]" and p = 5 and q = 5]
    C7_dets_current_result_type [where s = "FormatDets [0x73] 2 3 0" and i = "[]" and buf = "[True]" and p = 5 and q = 5]
    C7_dets_current_result_type [where s = "FormatDets [] 0 0 0" and i = "[]" and buf = "[True]" and p = 0 and q = 0]
  by (simp add: FormatDets_def FormatDets_current_result_type_def result_type_rank_def
        FormatDets_is_end_of_record_def uint64_def)

lemma FormatHits_read_bit_keeps:
  "FormatHits_read_bit s = Inr (b, s1) \<Longrightarrow> kept_by_Hits_read_bit s1 = kept_by_Hits_read_bit s"
  by (auto simp: kept_by_Hits_read_bit_def dest!: FormatHits_read_bit_frame)

lemma FormatHits_read_bits_keeps:
  "read_bits FormatHits_read_bit n s = Inr (bs, s2) \<Longrightarrow>
     kept_by_Hits_read_bit s2 = kept_by_Hits_read_bit s"
  by (rule read_bits_preserves [where f = kept_by_Hits_read_bit, OF FormatHits_read_bit_keeps])

lemma FormatHits_read_bits_into_bytes_keeps:
  "FormatHits_read_bits_into_bytes s out = Inr (k, out1, s3) \<Longrightarrow>
     kept_by_Hits_read_bit s3 = kept_by_Hits_read_bit s"
  unfolding FormatHits_read_bits_into_bytes_def
  by (rule default_read_bits_into_bytes_preserves
        [where f = kept_by_Hits_read_bit, OF FormatHits_read_bit_keeps])

lemma FormatDets_read_bit_keeps:
  "FormatDets_read_bit s = Inr (b, s1) \<Longrightarrow> kept_by_Dets_read_bit s1 = kept_by_Dets_read_bit s"
  by (auto simp: kept_by_Dets_read_bit_def dest!: FormatDets_read_bit_frame)

lemma FormatDets_read_bits_keeps:
  "read_bits FormatDets_read_bit n s = Inr (bs, s2) \<Longrightarrow>
     kept_by_Dets_read_bit s2 = kept_by_Dets_read_bit s"
  by (rule read_bits_preserves [where f = kept_by_Dets_read_bit, OF FormatDets_read_bit_keeps])

lemma FormatDets_read_bits_into_bytes_keeps:
  "FormatDets_read_bits_into_bytes s out = Inr (k, out1, s3) \<Longrightarrow>
     kept_by_Dets_read_bit s3 = kept_by_Dets_read_bit s"
  unfolding FormatDets_read_bits_into_bytes_def
  by (rule default_read_bits_into_bytes_preserves
        [where f = kept_by_Dets_read_bit, OF FormatDets_read_bit_keeps])

section \<open>The Hits and DETS formats read the stream in \<^verbatim>\<open>start_record\<close> only\<close>

text \<open>
  Claim C9. For the Hits and the DETS decoder: \<^verbatim>\<open>read_bit\<close> returns the bit of the buffer
  at \<^verbatim>\<open>position_in_buffer\<close> and changes neither the stream nor the buffer; so do repeated
  \<^verbatim>\<open>read_bit\<close> calls and \<^verbatim>\<open>read_bits_into_bytes\<close>. \<^verbatim>\<open>next_record\<close> is \<^verbatim>\<open>start_record\<close>, and
  after any number of bits of a record have been read, \<^verbatim>\<open>next_record\<close> does exactly what
  \<^verbatim>\<open>start_record\<close> does on the unread record (same result, same decoder, hence the same
  bytes consumed) whenever the stream is not exhausted.
\<close>

theorem C9_hits_dets_read_in_start_record_only:
  "(FormatHits_read_bit s = Inr (b, s1) \<longrightarrow>
      inHits s1 = inHits s \<and> bufferHits s1 = bufferHits s
      \<and> b = bufferHits s ! position_in_bufferHits s)
   \<and> (read_bits FormatHits_read_bit n s = Inr (bs, s2) \<longrightarrow> inHits s2 = inHits s)
   \<and> (FormatHits_read_bits_into_bytes s out = Inr (k, out1, s3) \<longrightarrow> inHits s3 = inHits s)
   \<and> FormatHits_next_record s = FormatHits_start_record s
   \<and> (inHits s \<noteq> [] \<and> read_bits FormatHits_read_bit n s = Inr (bs, s2) \<longrightarrow>
        FormatHits_next_record s2 = FormatHits_start_record s)
   \<and> (FormatDets_read_bit t = Inr (b', t1) \<longrightarrow>
        inDets t1 = inDets t \<and> bufferDets t1 = bufferDets t
        \<and> b' = bufferDets t ! position_in_bufferDets t)
   \<and> (read_bits FormatDets_read_bit n' t = Inr (bs', t2) \<longrightarrow> inDets t2 = inDets t)
   \<and> (FormatDets_read_bits_into_bytes t out' = Inr (k', out1', t3) \<longrightarrow> inDets t3 = inDets t)
   \<and> FormatDets_next_record t = FormatDets_start_record t
   \<and> (inDets t \<noteq> [] \<and> read_bits FormatDets_read_bit n' t = Inr (bs', t2) \<longrightarrow>
        FormatDets_next_record t2 = FormatDets_start_record t)"
proof -
  have h1: "FormatHits_read_bit s = Inr (b, s1) \<longrightarrow>
      inHits s1 = inHits s \<and> bufferHits s1 = bufferHits s
      \<and> b = bufferHits s ! position_in_bufferHits s"
    using FormatHits_read_bit_frame [of s b s1] by auto
  have h2: "read_bits FormatHits_read_bit n s = Inr (bs, s2) \<longrightarrow> inHits s2 = inHits s"
    using FormatHits_read_bits_keeps [of n s bs s2] by (simp add: kept_by_Hits_read_bit_def)
  have h3: "FormatHits_read_bits_into_bytes s out = Inr (k, out1, s3) \<longrightarrow> inHits s3 = inHits s"
    using FormatHits_read_bits_into_bytes_keeps [of s out k out1 s3]
    by (simp add: kept_by_Hits_read_bit_def)
  have h4: "FormatHits_next_record s = FormatHits_start_record s"
    by (simp add: FormatHits_next_record_def)
  have h5: "inHits s \<noteq> [] \<and> read_bits FormatHits_read_bit n s = Inr (bs, s2) \<longrightarrow>
        FormatHits_next_record s2 = FormatHits_start_record s"
  proof
    assume a: "inHits s \<noteq> [] \<and> read_bits FormatHits_read_bit n s = Inr (bs, s2)"
    then have "kept_by_Hits_read_bit s2 = kept_by_Hits_read_bit s"
      using FormatHits_read_bits_keeps [of n s bs s2] by simp
    then have "inHits s2 = inHits s" "bits_per_recordHits s2 = bits_per_recordHits s"
      "length (bufferHits s2) = length (bufferHits s)"
      by (simp_all add: kept_by_Hits_read_bit_def)
    from FormatHits_start_record_position [OF this] a
    show "FormatHits_next_record s2 = FormatHits_start_record s"
      by (simp add: FormatHits_next_record_def)
  qed
  have d1: "FormatDets_read_bit t = Inr (b', t1) \<longrightarrow>
        inDets t1 = inDets t \<and> bufferDets t1 = bufferDets t
        \<and> b' = bufferDets t ! position_in_bufferDets t"
    using FormatDets_read_bit_frame [of t b' t1] by auto
  have d2: "read_bits FormatDets_read_bit n' t = Inr (bs', t2) \<longrightarrow> inDets t2 = inDets t"
    using FormatDets_read_bits_keeps [of n' t bs' t2] by (simp add: kept_by_Dets_read_bit_def)
  have d3: "FormatDets_read_bits_into_bytes t out' = Inr (k', out1', t3) \<longrightarrow> inDets t3 = inDets t"
    using FormatDets_read_bits_into_bytes_keeps [of t out' k' out1' t3]
    by (simp add: kept_by_Dets_read_bit_def)
  have d4: "FormatDets_next_record t = FormatDets_start_record t"
    by (simp add: FormatDets_next_record_def)
  have d5: "inDets t \<noteq> [] \<and> read_bits FormatDets_read_bit n' t = Inr (bs', t2) \<longrightarrow>
        FormatDets_next_record t2 = FormatDets_start_record t"
  proof
    assume a: "inDets t \<noteq> [] \<and> read_bits FormatDets_read_bit n' t = Inr (bs', t2)"
    then have "kept_by_Dets_read_bit t2 = kept_by_Dets_read_bit t"
      using FormatDets_read_bits_keeps [of n' t bs' t2] by simp
    then have "inDets t2 = inDets t" "m_bits_per_record t2 = m_bits_per_record t"
      "d_bits_per_record t2 = d_bits_per_record t" "l_bits_per_record t2 = l_bits_per_record t"
      "length (bufferDets t2) = length (bufferDets t)"
      by (simp_all add: kept_by_Dets_read_bit_def)
    from FormatDets_start_record_position [OF this] a
    show "FormatDets_next_record t2 = FormatDets_start_record t"
      by (simp add: FormatDets_next_record_def)
  qed
  from h1 h2 h3 h4 h5 d1 d2 d3 d4 d5 show ?thesis
    by - (intro conjI; assumption)
qed

theorem C9_hits_dets_read_in_start_record_only_witness:
  "FormatHits_read_bit (hits_sample 0) = Inr (True, hits_sample 1)
   \<and> inHits (hits_sample 1) = inHits (hits_sample 0)
   \<and> read_bits FormatHits_read_bit 3 (hits_sample 0) = Inr ([True, False, False], hits_sample 3)
   \<and> inHits (hits_sample 3) = inHits (hits_sample 0)
   \<and> FormatHits_read_bits_into_bytes (hits_sample 0) [0xFF, 0xFF] = Inr (8, [0x21, 0xFF], hits_sample 8)
   \<and> inHits (hits_sample 8) = inHits (hits_sample 0)
   \<and> inHits (hits_sample 0) \<noteq> []
   \<and> FormatHits_next_record (hits_sample 3) = FormatHits_start_record (hits_sample 0)
   \<and> FormatDets_read_bit (dets_sample 0) = Inr (True, dets_sample 1)
   \<and> inDets (dets_sample 1) = inDets (dets_sample 0)
   \<and> read_bits FormatDets_read_bit 4 (dets_sample 0) = Inr ([True, False, False, False], dets_sample 4)
   \<and> inDets (dets_sample 4) = inDets (dets_sample 0)
   \<and> FormatDets_read_bits_into_bytes (dets_sample 0) [0xFF, 0xFF] = Inr (2, [0x01, 0xFF], dets_sample 2)
   \<and> inDets (dets_sample 2) = inDets (dets_sample 0)
   \<and> inDets (dets_sample 0) \<noteq> []
   \<and> FormatDets_next_record (dets_sample 4) = FormatDets_start_record (dets_sample 0)"
proof -
  have a1: "FormatHits_read_bit (hits_sample 0) = Inr (True, hits_sample 1)" by code_simp
  have a2: "read_bits FormatHits_read_bit 3 (hits_sample 0) = Inr ([True, False, False], hits_sample 3)"
    by code_simp
  have a3: "FormatHits_read_bits_into_bytes (hits_sample 0) [0xFF, 0xFF] = Inr (8, [0x21, 0xFF], hits_sample 8)"
    by code_simp
  have a4: "inHits (hits_sample 0) \<noteq> []" by (simp add: hits_sample_def)
  have b1: "FormatDets_read_bit (dets_sample 0) = Inr (True, dets_sample 1)" by code_simp
  have b2: "read_bits FormatDets_read_bit 4 (dets_sample 0) = Inr ([True, False, False, False], dets_sample 4)"
    by code_simp
  have b3: "FormatDets_read_bits_into_bytes (dets_sample 0) [0xFF, 0xFF] = Inr (2, [0x01, 0xFF], dets_sample 2)"
    by code_simp
  have b4: "inDets (dets_sample 0) \<noteq> []" by (simp add: dets_sample_def)
  note c = C9_hits_dets_read_in_start_record_only
  from c [where s = "hits_sample 0" and b = True and ?s1.0 = "hits_sample 1"] a1
  have r1: "inHits (hits_sample 1) = inHits (hits_sample 0)" by blast
  from c [where s = "hits_sample 0" and n = 3 and bs = "[True, False, False]" and ?s2.0 = "hits_sample 3"] a2 a4
  have r2: "inHits (hits_sample 3) = inHits (hits_sample 0)"
    and r4: "FormatHits_next_record (hits_sample 3) = FormatHits_start_record (hits_sample 0)" by blast+
  from c [where s = "hits_sample 0" and out = "[0xFF, 0xFF]" and k = 8 and ?out1.0 = "[0x21, 0xFF]" and ?s3.0 = "hits_sample 8"] a3
  have r3: "inHits (hits_sample 8) = inHits (hits_sample 0)" by blast
  from c [where t = "dets_sample 0" and b' = True and ?t1.0 = "dets_sample 1"] b1
  have q1: "inDets (dets_sample 1) = inDets (dets_sample 0)" by blast
  from c [where t = "dets_sample 0" and n' = 4 and bs' = "[True, False, False, False]" and ?t2.0 = "dets_sample 4"] b2 b4
  have q2: "inDets (dets_sample 4) = inDets (dets_sample 0)"
    and q4: "FormatDets_next_record (dets_sample 4) = FormatDets_start_record (dets_sample 0)" by blast+
  from c [where t = "dets_sample 0" and out' = "[0xFF, 0xFF]" and k' = 2 and ?out1' = "[0x01, 0xFF]" and ?t3.0 = "dets_sample 2"] b3
  have q3: "inDets (dets_sample 2) = inDets (dets_sample 0)" by blast
  from a1 r1 a2 r2 a3 r3 a4 r4 b1 q1 b2 q2 b3 q3 b4 q4 show ?thesis
    by - (intro conjI; assumption)
qed

section \<open>The default \<^verbatim>\<open>read_bits_into_bytes\<close> and the output buffer\<close>

text \<open>
  Claim C10. Whatever decoder the default \<^verbatim>\<open>read_bits_into_bytes\<close> runs on, when it returns
  \<open>n\<close> it has written the first \<open>(n + 7) div 8\<close> bytes of the buffer and no other: the
  buffer keeps its length, bit \<open>j\<close> of a written byte \<open>i\<close> is the bit that the
  \<open>(8 * i + j)\<close>-th \<^verbatim>\<open>read_bit\<close> returned when \<open>8 * i + j < n\<close> and is \<open>0\<close> otherwise (the byte was
  set to zero before the bits were OR-ed in, so nothing of its old content is left and the
  unused high bits of the last written byte are \<open>0\<close>), and every byte after the written
  ones is what it was before the call.
\<close>

theorem C10_default_read_bits_into_bytes_output:
  "MeasureRecordReader_read_bits_into_bytes read_bit is_end_of_record current_result_type s out_buffer
     = Inr (n, out1, s1) \<longrightarrow>
   length out1 = length out_buffer \<and> n \<le> 8 * length out_buffer
   \<and> (\<exists>bits. read_bits read_bit n s = Inr (bits, s1)
        \<and> (\<forall>i j. i < (n + 7) div 8 \<and> j < 8 \<longrightarrow>
               bit (out1 ! i) j = (8 * i + j < n \<and> bits ! (8 * i + j))))
   \<and> (\<forall>i j. i < (n + 7) div 8 \<and> j < 8 \<and> n \<le> 8 * i + j \<longrightarrow> \<not> bit (out1 ! i) j)
   \<and> (\<forall>i. (n + 7) div 8 \<le> i \<and> i < length out_buffer \<longrightarrow> out1 ! i = out_buffer ! i)"
proof
  assume a: "MeasureRecordReader_read_bits_into_bytes read_bit is_end_of_record current_result_type
               s out_buffer = Inr (n, out1, s1)"
  let ?nb = "(n + 7) div 8"
  from default_read_bits_into_bytes_reads [OF a] obtain bits where
    b: "read_bits read_bit n s = Inr (bits, s1)" "length bits = n"
       "length out1 = length out_buffer" "n \<le> 8 * length out_buffer"
       "bits_of_bytes (take ?nb out1) = bits @ replicate (8 * ?nb - n) False"
       "drop ?nb out1 = drop ?nb out_buffer"
    by blast
  from b(4) have nb: "?nb \<le> length out_buffer" by arith
  have written: "bit (out1 ! i) j = (8 * i + j < n \<and> bits ! (8 * i + j))"
    if ij: "i < ?nb" "j < 8" for i j
  proof -
    from ij nb b(3) have "bit (out1 ! i) j = bit (take ?nb out1 ! i) j" by simp
    also from ij nb b(3) have "\<dots> = bits_of_bytes (take ?nb out1) ! (8 * i + j)"
      by (simp add: nth_bits_of_bytes)
    also have "\<dots> = (bits @ replicate (8 * ?nb - n) False) ! (8 * i + j)"
      by (simp only: b(5))
    also from ij have "8 * i + j < 8 * ?nb" by arith
    then have "(bits @ replicate (8 * ?nb - n) False) ! (8 * i + j) =
               (8 * i + j < n \<and> bits ! (8 * i + j))"
      using b(2) by (simp add: nth_append)
    finally show ?thesis .
  qed
  have rest: "out1 ! i = out_buffer ! i" if i: "?nb \<le> i" "i < length out_buffer" for i
  proof -
    from i b(3) have "out1 ! i = drop ?nb out1 ! (i - ?nb)" by simp
    also from b(6) have "\<dots> = drop ?nb out_buffer ! (i - ?nb)" by simp
    also from i have "\<dots> = out_buffer ! i" by simp
    finally show ?thesis .
  qed
  from written have zero: "\<forall>i j. i < ?nb \<and> j < 8 \<and> n \<le> 8 * i + j \<longrightarrow> \<not> bit (out1 ! i) j"
    by auto
  from written b(1) have low: "\<exists>bits. read_bits read_bit n s = Inr (bits, s1)
        \<and> (\<forall>i j. i < ?nb \<and> j < 8 \<longrightarrow> bit (out1 ! i) j = (8 * i + j < n \<and> bits ! (8 * i + j)))"
    by blast
  from rest have keep: "\<forall>i. ?nb \<le> i \<and> i < length out_buffer \<longrightarrow> out1 ! i = out_buffer ! i"
    by blast
  from b(3) b(4) low zero keep
  show "length out1 = length out_buffer \<and> n \<le> 8 * length out_buffer
   \<and> (\<exists>bits. read_bits read_bit n s = Inr (bits, s1)
        \<and> (\<forall>i j. i < (n + 7) div 8 \<and> j < 8 \<longrightarrow>
               bit (out1 ! i) j = (8 * i + j < n \<and> bits ! (8 * i + j))))
   \<and> (\<forall>i j. i < (n + 7) div 8 \<and> j < 8 \<and> n \<le> 8 * i + j \<longrightarrow> \<not> bit (out1 ! i) j)
   \<and> (\<forall>i. (n + 7) div 8 \<le> i \<and> i < length out_buffer \<longrightarrow> out1 ! i = out_buffer ! i)"
    by - (intro conjI; assumption)
qed

theorem C10_default_read_bits_into_bytes_output_witness:
  "MeasureRecordReader_read_bits_into_bytes Format01_read_bit Format01_is_end_of_record
     MeasureRecordReader_current_result_type f01_sample [0xFF, 0xFF]
     = Inr (3, [0x02, 0xFF], f01_sample\<lparr>in01 := [], payload01 := 0x0A, position01 := 3\<rparr>)
   \<and> length [0x02, 0xFF :: byte] = length [0xFF, 0xFF :: byte]
   \<and> (3 :: nat) \<le> 8 * length [0xFF, 0xFF :: byte]
   \<and> \<not> bit ([0x02, 0xFF :: byte] ! 0) 3
   \<and> \<not> bit ([0x02, 0xFF :: byte] ! 0) 7
   \<and> [0x02, 0xFF :: byte] ! 1 = [0xFF, 0xFF] ! 1"
proof -
  have h: "MeasureRecordReader_read_bits_into_bytes Format01_read_bit Format01_is_end_of_record
     MeasureRecordReader_current_result_type f01_sample [0xFF, 0xFF]
     = Inr (3, [0x02, 0xFF], f01_sample\<lparr>in01 := [], payload01 := 0x0A, position01 := 3\<rparr>)"
    by code_simp
  note c = C10_default_read_bits_into_bytes_output [where read_bit = Format01_read_bit
      and is_end_of_record = Format01_is_end_of_record
      and current_result_type = MeasureRecordReader_current_result_type
      and s = f01_sample and out_buffer = "[0xFF, 0xFF]" and n = 3 and ?out1.0 = "[0x02, 0xFF]"
      and ?s1.0 = "f01_sample\<lparr>in01 := [], payload01 := 0x0A, position01 := 3\<rparr>"]
  from c h have l: "length [0x02, 0xFF :: byte] = length [0xFF, 0xFF :: byte]"
    and n: "(3 :: nat) \<le> 8 * length [0xFF, 0xFF :: byte]"
    and z: "\<forall>i j. i < (3 + 7) div 8 \<and> j < 8 \<and> 3 \<le> 8 * i + j \<longrightarrow> \<not> bit ([0x02, 0xFF :: byte] ! i) j"
    and k: "\<forall>i. (3 + 7) div 8 \<le> i \<and> i < length [0xFF, 0xFF :: byte] \<longrightarrow>
              [0x02, 0xFF :: byte] ! i = [0xFF, 0xFF] ! i"
    by blast+
  from z have z3: "\<not> bit ([0x02, 0xFF :: byte] ! 0) 3"
    by (rule allE [of _ 0], elim allE [of _ 3]) simp
  from z have z7: "\<not> bit ([0x02, 0xFF :: byte] ! 0) 7"
    by (rule allE [of _ 0], elim allE [of _ 7]) simp
  from k have k1: "[0x02, 0xFF :: byte] ! 1 = [0xFF, 0xFF] ! 1"
    by (rule allE [of _ 1]) simp
  from h l n z3 z7 k1 show ?thesis
    by - (intro conjI; assumption)
qed

section \<open>The polymorphic reader and its factory\<close>

text \<open>
  A \<^verbatim>\<open>MeasureRecordReader\<close> is one of the five decoders; a virtual call dispatches on the
  decoder. \<open>lift_result\<close> and \<open>lift_bits_result\<close> put the decoder of a result back into the
  sum type.
\<close>

datatype MeasureRecordReader =
    Reader01 reader01
  | ReaderB8 readerB8
  | ReaderHits readerHits
  | ReaderR8 readerR8
  | ReaderDets readerDets

datatype SampleFormat =
    SAMPLE_FORMAT_01
  | SAMPLE_FORMAT_B8
  | SAMPLE_FORMAT_PTB64
  | SAMPLE_FORMAT_HITS
  | SAMPLE_FORMAT_R8
  | SAMPLE_FORMAT_DETS

datatype make_error = only_dets_has_detection_events | only_dets_has_observables | ptb64_incompatible

definition make ::
  "bool \<Rightarrow> stream \<Rightarrow> SampleFormat \<Rightarrow> nat \<Rightarrow> nat \<Rightarrow> nat
     \<Rightarrow> make_error + MeasureRecordReader" where
  "make ndebug i input_format n_measurements n_detection_events n_logical_observables =
     (if input_format \<noteq> SAMPLE_FORMAT_DETS \<and> n_detection_events \<noteq> 0
        then Inl only_dets_has_detection_events
      else if input_format \<noteq> SAMPLE_FORMAT_DETS \<and> n_logical_observables \<noteq> 0
        then Inl only_dets_has_observables
      else case input_format of
        SAMPLE_FORMAT_01 \<Rightarrow> Inr (Reader01 (Format01 i n_measurements))
      | SAMPLE_FORMAT_B8 \<Rightarrow> Inr (ReaderB8 (FormatB8 i n_measurements))
      | SAMPLE_FORMAT_DETS \<Rightarrow>
          Inr (ReaderDets (FormatDets i n_measurements n_detection_events n_logical_observables))
      | SAMPLE_FORMAT_HITS \<Rightarrow> Inr (ReaderHits (FormatHits i n_measurements))
      | SAMPLE_FORMAT_PTB64 \<Rightarrow> Inl ptb64_incompatible
      | SAMPLE_FORMAT_R8 \<Rightarrow> Inr (ReaderR8 (FormatR8 ndebug i n_measurements)))"

definition lift_result ::
  "('s \<Rightarrow> MeasureRecordReader) \<Rightarrow> error + ('a \<times> 's) \<Rightarrow> error + ('a \<times> MeasureRecordReader)" where
  "lift_result C r = (case r of Inl e \<Rightarrow> Inl e | Inr (x, s) \<Rightarrow> Inr (x, C s))"

definition lift_bits_result ::
  "('s \<Rightarrow> MeasureRecordReader) \<Rightarrow> error + (nat \<times> byte list \<times> 's) \<Rightarrow>
     error + (nat \<times> byte list \<times> MeasureRecordReader)" where
  "lift_bits_result C r = (case r of Inl e \<Rightarrow> Inl e | Inr (n, out, s) \<Rightarrow> Inr (n, out, C s))"

fun start_record :: "MeasureRecordReader \<Rightarrow> error + (bool \<times> MeasureRecordReader)" where
  "start_record (Reader01 s) = lift_result Reader01 (Format01_start_record s)"
| "start_record (ReaderB8 s) = lift_result ReaderB8 (FormatB8_start_record s)"
| "start_record (ReaderHits s) = lift_result ReaderHits (FormatHits_start_record s)"
| "start_record (ReaderR8 s) = lift_result ReaderR8 (FormatR8_start_record s)"
| "start_record (ReaderDets s) = lift_result ReaderDets (FormatDets_start_record s)"

fun next_record :: "MeasureRecordReader \<Rightarrow> error + (bool \<times> MeasureRecordReader)" where
  "next_record (Reader01 s) = lift_result Reader01 (Format01_next_record s)"
| "next_record (ReaderB8 s) = lift_result ReaderB8 (FormatB8_next_record s)"
| "next_record (ReaderHits s) = lift_result ReaderHits (FormatHits_next_record s)"
| "next_record (ReaderR8 s) = lift_result ReaderR8 (FormatR8_next_record s)"
| "next_record (ReaderDets s) = lift_result ReaderDets (FormatDets_next_record s)"

fun read_bit :: "MeasureRecordReader \<Rightarrow> error + (bool \<times> MeasureRecordReader)" where
  "read_bit (Reader01 s) = lift_result Reader01 (Format01_read_bit s)"
| "read_bit (ReaderB8 s) = lift_result ReaderB8 (FormatB8_read_bit s)"
| "read_bit (ReaderHits s) = lift_result ReaderHits (FormatHits_read_bit s)"
| "read_bit (ReaderR8 s) = lift_result ReaderR8 (FormatR8_read_bit s)"
| "read_bit (ReaderDets s) = lift_result ReaderDets (FormatDets_read_bit s)"

fun is_end_of_record :: "MeasureRecordReader \<Rightarrow> error + bool" where
  "is_end_of_record (Reader01 s) = Format01_is_end_of_record s"
| "is_end_of_record (ReaderB8 s) = Inr (FormatB8_is_end_of_record s)"
| "is_end_of_record (ReaderHits s) = Inr (FormatHits_is_end_of_record s)"
| "is_end_of_record (ReaderR8 s) = Inr (FormatR8_is_end_of_record s)"
| "is_end_of_record (ReaderDets s) = Inr (FormatDets_is_end_of_record s)"

fun current_result_type :: "MeasureRecordReader \<Rightarrow> char" where
  "current_result_type (ReaderDets s) = FormatDets_current_result_type s"
| "current_result_type r = MeasureRecordReader_current_result_type r"

fun read_bits_into_bytes ::
  "MeasureRecordReader \<Rightarrow> byte list \<Rightarrow> error + (nat \<times> byte list \<times> MeasureRecordReader)" where
  "read_bits_into_bytes (Reader01 s) out_buffer =
     lift_bits_result Reader01 (Format01_read_bits_into_bytes s out_buffer)"
| "read_bits_into_bytes (ReaderB8 s) out_buffer =
     lift_bits_result ReaderB8 (FormatB8_read_bits_into_bytes s out_buffer)"
| "read_bits_into_bytes (ReaderHits s) out_buffer =
     lift_bits_result ReaderHits (FormatHits_read_bits_into_bytes s out_buffer)"
| "read_bits_into_bytes (ReaderR8 s) out_buffer =
     lift_bits_result ReaderR8 (FormatR8_read_bits_into_bytes s out_buffer)"
| "read_bits_into_bytes (ReaderDets s) out_buffer =
     lift_bits_result ReaderDets (FormatDets_read_bits_into_bytes s out_buffer)"

text \<open>The members \<^verbatim>\<open>in\<close> (the bytes of the stream not yet read) and \<^verbatim>\<open>position\<close> of a reader.\<close>

fun stream_of :: "MeasureRecordReader \<Rightarrow> stream" where
  "stream_of (Reader01 s) = in01 s"
| "stream_of (ReaderB8 s) = inB8 s"
| "stream_of (ReaderHits s) = inHits s"
| "stream_of (ReaderR8 s) = inR8 s"
| "stream_of (ReaderDets s) = inDets s"

fun position_of :: "MeasureRecordReader \<Rightarrow> nat" where
  "position_of (Reader01 s) = position01 s"
| "position_of (ReaderB8 s) = positionB8 s"
| "position_of (ReaderHits s) = position_in_bufferHits s"
| "position_of (ReaderR8 s) = positionR8 s"
| "position_of (ReaderDets s) = position_in_bufferDets s"

text \<open>
  The run counters of the R8 decoder are empty: what \<^verbatim>\<open>maybe_buffer_data\<close>, and so
  \<^verbatim>\<open>start_record\<close>, asserts. The other decoders have no such assertion.
\<close>

fun run_counters_empty :: "MeasureRecordReader \<Rightarrow> bool" where
  "run_counters_empty (ReaderR8 s) \<longleftrightarrow> buffered_0s s = 0 \<and> buffered_1s s = 0"
| "run_counters_empty r \<longleftrightarrow> True"

text \<open>
  The invariant of the R8 decoder inside a record: once the terminal one-bit has been seen, the
  buffered bits end exactly at the end of the record; before that they end before it.
\<close>

definition r8_inv :: "readerR8 \<Rightarrow> bool" where
  "r8_inv s \<longleftrightarrow>
     (if have_seen_terminal_1 s
      then positionR8 s + buffered_0s s + buffered_1s s = bits_per_recordR8 s
      else positionR8 s + buffered_0s s + buffered_1s s < bits_per_recordR8 s)"

subsection \<open>\<^verbatim>\<open>start_record\<close> and the end of the stream\<close>

lemma getc_Nil [simp]: "getc [] = (EOF, [])" by simp

lemma getc_nonempty: "i \<noteq> [] \<Longrightarrow> getc i = (uint (hd i), tl i)"
  by (cases i) simp_all

lemma Format01_start_record_flag:
  "Format01_start_record s = Inr (b, s1) \<Longrightarrow> b = (in01 s \<noteq> [])"
  by (cases "in01 s") (auto simp: Format01_start_record_def uint_not_EOF)

lemma Format01_start_record_at_end:
  "in01 s = [] \<Longrightarrow> Format01_start_record s = Inr (False, s\<lparr>payload01 := EOF, position01 := 0\<rparr>)"
  by (simp add: Format01_start_record_def)

lemma FormatB8_start_record_flag:
  "FormatB8_start_record s = Inr (b, s1) \<Longrightarrow> b = (inB8 s \<noteq> [])"
  by (cases "inB8 s")
     (auto simp: FormatB8_start_record_def maybe_update_payload_def Let_def uint_not_EOF)

lemma FormatB8_start_record_at_end:
  "inB8 s = [] \<Longrightarrow>
     FormatB8_start_record s = Inr (False, s\<lparr>positionB8 := 0, bits_availableB8 := 0, payloadB8 := EOF\<rparr>)"
  by (simp add: FormatB8_start_record_def maybe_update_payload_def Let_def)

lemma FormatHits_start_record_flag:
  "FormatHits_start_record s = Inr (b, s1) \<Longrightarrow> b = (inHits s \<noteq> [])"
  by (cases "inHits s")
     (auto simp: FormatHits_start_record_def uint_not_EOF split: sum.splits)

lemma FormatHits_start_record_at_end:
  "inHits s = [] \<Longrightarrow> FormatHits_start_record s = Inr (False, s)"
  by (simp add: FormatHits_start_record_def)

lemma maybe_consume_keyword_flag:
  "maybe_consume_keyword i keyword = Inr (found, c, i1) \<Longrightarrow> found = (i \<noteq> [])"
  by (cases i) (auto simp: maybe_consume_keyword_def uint_not_EOF split: sum.splits)

lemma FormatDets_start_record_flag:
  "FormatDets_start_record s = Inr (b, s1) \<Longrightarrow> b = (inDets s \<noteq> [])"
  by (auto simp: FormatDets_start_record_def split: sum.splits if_splits
           dest: maybe_consume_keyword_flag)

lemma FormatDets_start_record_at_end:
  "inDets s = [] \<Longrightarrow> FormatDets_start_record s = Inr (False, s)"
  by (simp add: FormatDets_start_record_def maybe_consume_keyword_def)

lemma count_zeroes_no_record:
  "count_zeroes s = Inr (False, s1) \<Longrightarrow>
     inR8 s = [] \<and> buffered_0s s = 0 \<and> positionR8 s = 0 \<and> s1 = s"
proof (induction s rule: count_zeroes.induct)
  case (1 s)
  note unf = count_zeroes.simps [of s]
  obtain r i where g: "getc (inR8 s) = (r, i)" by (cases "getc (inR8 s)")
  show ?case
  proof (cases "r = EOF")
    case True
    with g getc_at_end [of r i "inR8 s"] have "inR8 s = []" "i = []" by auto
    with "1.prems" g True show ?thesis by (auto simp: unf split: if_splits)
  next
    case False
    from getc_range [OF g [symmetric]] False have r0: "0 \<le> r" by auto
    show ?thesis
    proof (cases "r = 255")
      case True
      with "1.prems" g False
      have rec: "count_zeroes (s\<lparr>inR8 := i, buffered_0s := buffered_0s s + nat r\<rparr>) = Inr (False, s1)"
        by (simp add: unf)
      from "1.IH" [OF g [symmetric] False True rec] True show ?thesis by simp
    next
      case n: False
      with "1.prems" g False show ?thesis by (simp add: unf)
    qed
  qed
qed

lemma maybe_buffer_data_flag:
  assumes "maybe_buffer_data s = Inr (b, s1)"
  shows "b = (inR8 s \<noteq> [])"
proof (cases b)
  case True
  with assms maybe_buffer_data_shorter [of s s1] show ?thesis by auto
next
  case False
  with assms have "count_zeroes s = Inr (False, s1)"
    by (auto simp: maybe_buffer_data_def Let_def split: if_splits sum.splits bool.splits prod.splits)
  from count_zeroes_no_record [OF this] False show ?thesis by simp
qed

lemma FormatR8_start_record_flag:
  "FormatR8_start_record s = Inr (b, s1) \<Longrightarrow> b = (inR8 s \<noteq> [])"
  using maybe_buffer_data_flag [of "s\<lparr>positionR8 := 0, have_seen_terminal_1 := False\<rparr>" b s1]
  by (simp add: FormatR8_start_record_def)

lemma FormatR8_start_record_at_end:
  "inR8 s = [] \<Longrightarrow> buffered_0s s = 0 \<Longrightarrow> NDEBUG s \<or> buffered_1s s = 0 \<Longrightarrow>
     FormatR8_start_record s = Inr (False, s\<lparr>positionR8 := 0, have_seen_terminal_1 := False\<rparr>)"
  by (simp add: FormatR8_start_record_def maybe_buffer_data_def FormatR8_is_end_of_record_def
        count_zeroes.simps [of "s\<lparr>positionR8 := 0, have_seen_terminal_1 := False\<rparr>"])

lemma start_record_flag: "start_record r = Inr (b, r1) \<Longrightarrow> b = (stream_of r \<noteq> [])"
  by (cases r)
     (auto simp: lift_result_def split: sum.splits
           dest: Format01_start_record_flag FormatB8_start_record_flag FormatHits_start_record_flag
                 FormatR8_start_record_flag FormatDets_start_record_flag)

lemma start_record_at_end:
  assumes "stream_of r = []" "run_counters_empty r"
  shows "\<exists>r1. start_record r = Inr (False, r1) \<and> stream_of r1 = [] \<and> run_counters_empty r1"
proof (cases r)
  case (Reader01 s)
  with assms Format01_start_record_at_end [of s] show ?thesis by (simp add: lift_result_def)
next
  case (ReaderB8 s)
  with assms FormatB8_start_record_at_end [of s] show ?thesis by (simp add: lift_result_def)
next
  case (ReaderHits s)
  with assms FormatHits_start_record_at_end [of s] show ?thesis by (simp add: lift_result_def)
next
  case (ReaderR8 s)
  with assms FormatR8_start_record_at_end [of s] show ?thesis by (simp add: lift_result_def)
next
  case (ReaderDets s)
  with assms FormatDets_start_record_at_end [of s] show ?thesis by (simp add: lift_result_def)
qed

lemma start_record_false_state:
  assumes "start_record r = Inr (False, r1)"
  shows "stream_of r1 = [] \<and> (\<forall>s. r \<noteq> ReaderR8 s) \<and> run_counters_empty r1
         \<or> (\<exists>s1. r1 = ReaderR8 s1 \<and> inR8 s1 = [] \<and> buffered_0s s1 = 0
                  \<and> (NDEBUG s1 \<or> buffered_1s s1 = 0))"
proof (cases r)
  case (Reader01 s)
  with assms show ?thesis
    by (cases "in01 s")
       (auto simp: lift_result_def Format01_start_record_def uint_not_EOF split: sum.splits)
next
  case (ReaderB8 s)
  with assms show ?thesis
    by (cases "inB8 s")
       (auto simp: lift_result_def FormatB8_start_record_def maybe_update_payload_def Let_def
             uint_not_EOF split: sum.splits)
next
  case (ReaderHits s)
  with assms show ?thesis
    by (cases "inHits s")
       (auto simp: lift_result_def FormatHits_start_record_def uint_not_EOF split: sum.splits)
next
  case (ReaderR8 s)
  let ?s = "s\<lparr>positionR8 := 0, have_seen_terminal_1 := False\<rparr>"
  from ReaderR8 assms obtain s1 where s1: "r1 = ReaderR8 s1"
    "maybe_buffer_data ?s = Inr (False, s1)"
    by (auto simp: lift_result_def FormatR8_start_record_def split: sum.splits)
  then have c: "count_zeroes ?s = Inr (False, s1)"
    and b: "NDEBUG s \<or> buffered_1s s = 0"
    by (auto simp: maybe_buffer_data_def Let_def split: if_splits sum.splits bool.splits prod.splits)
  from count_zeroes_no_record [OF c] have "inR8 s = []" "buffered_0s s = 0" "s1 = ?s" by simp_all
  with b s1(1) show ?thesis by auto
next
  case (ReaderDets s)
  with assms show ?thesis
    by (cases "inDets s")
       (auto simp: lift_result_def FormatDets_start_record_def maybe_consume_keyword_def uint_not_EOF
             split: sum.splits if_splits)
qed

lemma start_record_false_again:
  assumes "start_record r = Inr (False, r1)"
  shows "\<exists>r2. start_record r1 = Inr (False, r2)"
proof -
  from start_record_false_state [OF assms]
  consider "stream_of r1 = []" "run_counters_empty r1"
    | s1 where "r1 = ReaderR8 s1" "inR8 s1 = []" "buffered_0s s1 = 0"
        "NDEBUG s1 \<or> buffered_1s s1 = 0"
    by blast
  then show ?thesis
  proof cases
    case 1
    with start_record_at_end [of r1] show ?thesis by blast
  next
    case 2
    with FormatR8_start_record_at_end [of s1] show ?thesis by (simp add: lift_result_def)
  qed
qed

subsection \<open>The invariant of the R8 decoder\<close>

lemma count_zeroes_frame:
  "count_zeroes s = Inr (True, s1) \<Longrightarrow>
     positionR8 s1 = positionR8 s \<and> have_seen_terminal_1 s1 = have_seen_terminal_1 s
     \<and> buffered_1s s1 = buffered_1s s \<and> bits_per_recordR8 s1 = bits_per_recordR8 s"
proof (induction s rule: count_zeroes.induct)
  case (1 s)
  note unf = count_zeroes.simps [of s]
  obtain r i where g: "getc (inR8 s) = (r, i)" by (cases "getc (inR8 s)")
  from "1.prems" g have ne: "r \<noteq> EOF" by (auto simp: unf split: if_splits)
  show ?case
  proof (cases "r = 255")
    case True
    with "1.prems" g ne
    have rec: "count_zeroes (s\<lparr>inR8 := i, buffered_0s := buffered_0s s + nat r\<rparr>) = Inr (True, s1)"
      by (simp add: unf)
    from "1.IH" [OF g [symmetric] ne True rec] show ?thesis by simp
  next
    case False
    with "1.prems" g ne show ?thesis by (auto simp: unf)
  qed
qed

lemma maybe_buffer_data_inv:
  assumes "maybe_buffer_data s = Inr (True, s1)" and "\<not> have_seen_terminal_1 s"
  shows "r8_inv s1 \<and> positionR8 s1 = positionR8 s \<and> bits_per_recordR8 s1 = bits_per_recordR8 s
         \<and> (buffered_0s s1 \<noteq> 0 \<or> buffered_1s s1 \<noteq> 0 \<or> FormatR8_is_end_of_record s1)"
proof -
  from assms(1) obtain s0 where c: "count_zeroes s = Inr (True, s0)"
    by (auto simp: maybe_buffer_data_def split: if_splits sum.splits bool.splits)
  note f = count_zeroes_frame [OF c]
  obtain t i where g: "getc (inR8 s0) = (t, i)" by (cases "getc (inR8 s0)")
  from assms c g f show ?thesis
    by (auto simp: maybe_buffer_data_def r8_inv_def FormatR8_is_end_of_record_def Let_def
             split: if_splits)
qed

lemma FormatR8_start_record_inv:
  assumes "FormatR8_start_record s = Inr (True, s1)"
  shows "r8_inv s1 \<and> positionR8 s1 = 0 \<and> bits_per_recordR8 s1 = bits_per_recordR8 s"
  using maybe_buffer_data_inv [of "s\<lparr>positionR8 := 0, have_seen_terminal_1 := False\<rparr>" s1] assms
  by (simp add: FormatR8_start_record_def)

lemma r8_inv_end: "r8_inv s \<Longrightarrow> FormatR8_is_end_of_record s \<Longrightarrow> buffered_0s s = 0 \<and> buffered_1s s = 0"
  by (auto simp: r8_inv_def FormatR8_is_end_of_record_def)

lemma FormatR8_read_bit_inv:
  assumes "FormatR8_read_bit s = Inr (b, s1)" and "r8_inv s"
  shows "r8_inv s1 \<and> positionR8 s1 = positionR8 s + 1 \<and> bits_per_recordR8 s1 = bits_per_recordR8 s"
proof (cases "buffered_0s s = 0 \<and> buffered_1s s = 0")
  case False
  with assms show ?thesis
    by (auto simp: FormatR8_read_bit_def r8_inv_def split: if_splits)
next
  case True
  with assms(1) obtain s0 where m: "maybe_buffer_data s = Inr (True, s0)"
    by (auto simp: FormatR8_read_bit_def assert_maybe_buffer_data_def split: sum.splits if_splits)
  have ns: "\<not> have_seen_terminal_1 s"
  proof
    assume "have_seen_terminal_1 s"
    with assms(2) True have "FormatR8_is_end_of_record s"
      by (simp add: r8_inv_def FormatR8_is_end_of_record_def)
    with m True show False by (simp add: maybe_buffer_data_def)
  qed
  from maybe_buffer_data_inv [OF m ns] assms(1) True m show ?thesis
    by (auto simp: FormatR8_read_bit_def assert_maybe_buffer_data_def r8_inv_def split: if_splits)
qed

lemma FormatR8_read_bits_inv:
  "read_bits FormatR8_read_bit n s = Inr (bs, s1) \<Longrightarrow> r8_inv s \<Longrightarrow>
     r8_inv s1 \<and> positionR8 s1 = positionR8 s + n \<and> bits_per_recordR8 s1 = bits_per_recordR8 s"
proof (induction n arbitrary: s bs)
  case 0
  then show ?case by simp
next
  case (Suc n)
  from Suc.prems(1) obtain b s0 bs0 where r: "FormatR8_read_bit s = Inr (b, s0)"
    and rest: "read_bits FormatR8_read_bit n s0 = Inr (bs0, s1)"
    by (auto split: sum.splits)
  from FormatR8_read_bit_inv [OF r Suc.prems(2)] Suc.IH [OF rest] show ?case by simp
qed

subsection \<open>Repeated reads of the polymorphic reader, and \<^verbatim>\<open>next_record\<close> at the end\<close>

lemma read_bits_lift:
  assumes "\<And>s. rb (C s) = lift_result C (rbf s)"
  shows "read_bits rb n (C s) = lift_result C (read_bits rbf n s)"
proof (induction n arbitrary: s)
  case 0
  show ?case by (simp add: lift_result_def)
next
  case (Suc n)
  show ?case
    by (simp add: assms [of s] Suc.IH lift_result_def split: sum.splits prod.splits)
qed

lemmas read_bits_Reader =
  read_bits_lift [where rb = read_bit and C = Reader01 and rbf = Format01_read_bit, OF read_bit.simps(1)]
  read_bits_lift [where rb = read_bit and C = ReaderB8 and rbf = FormatB8_read_bit, OF read_bit.simps(2)]
  read_bits_lift [where rb = read_bit and C = ReaderHits and rbf = FormatHits_read_bit, OF read_bit.simps(3)]
  read_bits_lift [where rb = read_bit and C = ReaderR8 and rbf = FormatR8_read_bit, OF read_bit.simps(4)]
  read_bits_lift [where rb = read_bit and C = ReaderDets and rbf = FormatDets_read_bit, OF read_bit.simps(5)]

lemma run_counters_empty_at_end:
  assumes "start_record r0 = Inr (True, r)" "read_bits read_bit n r = Inr (bs, r1)"
    "is_end_of_record r1 = Inr True"
  shows "run_counters_empty r1"
proof (cases r0)
  case (ReaderR8 s0)
  with assms(1) obtain s where r: "r = ReaderR8 s" and st: "FormatR8_start_record s0 = Inr (True, s)"
    by (auto simp: lift_result_def split: sum.splits)
  with assms(2) obtain s1 where r1: "r1 = ReaderR8 s1"
    and rd: "read_bits FormatR8_read_bit n s = Inr (bs, s1)"
    by (auto simp: read_bits_Reader lift_result_def split: sum.splits)
  from FormatR8_start_record_inv [OF st] FormatR8_read_bits_inv [OF rd] have "r8_inv s1" by simp
  with assms(3) r1 r8_inv_end [of s1] show ?thesis by simp
next
  case (Reader01 s0)
  with assms(1,2) show ?thesis
    by (auto simp: read_bits_Reader lift_result_def split: sum.splits)
next
  case (ReaderB8 s0)
  with assms(1,2) show ?thesis
    by (auto simp: read_bits_Reader lift_result_def split: sum.splits)
next
  case (ReaderHits s0)
  with assms(1,2) show ?thesis
    by (auto simp: read_bits_Reader lift_result_def split: sum.splits)
next
  case (ReaderDets s0)
  with assms(1,2) show ?thesis
    by (auto simp: read_bits_Reader lift_result_def split: sum.splits)
qed

lemma next_record_false:
  assumes "next_record r = Inr (False, r1)"
  shows "stream_of r1 = []"
proof -
  have "\<exists>r0. start_record r0 = Inr (False, r1)"
  proof (cases r)
    case (Reader01 s)
    with assms obtain s0 s1 where "Format01_start_record s0 = Inr (False, s1)" "r1 = Reader01 s1"
      by (auto simp: lift_result_def Format01_next_record_def split: sum.splits)
    then have "start_record (Reader01 s0) = Inr (False, r1)" by (simp add: lift_result_def)
    then show ?thesis ..
  next
    case (ReaderB8 s)
    with assms obtain s0 s1 where "FormatB8_start_record s0 = Inr (False, s1)" "r1 = ReaderB8 s1"
      by (auto simp: lift_result_def FormatB8_next_record_def split: sum.splits)
    then have "start_record (ReaderB8 s0) = Inr (False, r1)" by (simp add: lift_result_def)
    then show ?thesis ..
  next
    case (ReaderHits s)
    with assms have "start_record r = Inr (False, r1)"
      by (simp add: FormatHits_next_record_def)
    then show ?thesis ..
  next
    case (ReaderR8 s)
    with assms obtain s0 s1 where "FormatR8_start_record s0 = Inr (False, s1)" "r1 = ReaderR8 s1"
      by (auto simp: lift_result_def FormatR8_next_record_def split: sum.splits)
    then have "start_record (ReaderR8 s0) = Inr (False, r1)" by (simp add: lift_result_def)
    then show ?thesis ..
  next
    case (ReaderDets s)
    with assms have "start_record r = Inr (False, r1)"
      by (simp add: FormatDets_next_record_def)
    then show ?thesis ..
  qed
  then obtain r0 where "start_record r0 = Inr (False, r1)" ..
  from start_record_false_state [OF this] show ?thesis by auto
qed

lemma next_record_at_end:
  assumes "is_end_of_record r = Inr True" "stream_of r = []" "run_counters_empty r"
  shows "\<exists>r1. next_record r = Inr (False, r1)"
proof (cases r)
  case (Reader01 s)
  with assms have "Format01_skip_line s = Inr s"
    by (auto simp: Format01_skip_line.simps [of s] Format01_is_end_of_record_def Let_def
             split: if_splits)
  with Reader01 assms Format01_start_record_at_end [of s] show ?thesis
    by (simp add: Format01_next_record_def lift_result_def)
next
  case (ReaderB8 s)
  with assms have "FormatB8_skip_record s = Inr s"
    by (simp add: FormatB8_skip_record.simps [of s])
  with ReaderB8 assms FormatB8_start_record_at_end [of s] show ?thesis
    by (simp add: FormatB8_next_record_def lift_result_def)
next
  case (ReaderHits s)
  with assms FormatHits_start_record_at_end [of s] show ?thesis
    by (simp add: FormatHits_next_record_def lift_result_def)
next
  case (ReaderR8 s)
  with assms have "FormatR8_skip_record s = Inr s"
    by (simp add: FormatR8_skip_record.simps [of s])
  with ReaderR8 assms FormatR8_start_record_at_end [of s] show ?thesis
    by (simp add: FormatR8_next_record_def lift_result_def)
next
  case (ReaderDets s)
  with assms FormatDets_start_record_at_end [of s] show ?thesis
    by (simp add: FormatDets_next_record_def lift_result_def)
qed

subsection \<open>A Hits record needs its newline\<close>

lemma uint_byte_eq_iff: "uint (b :: byte) = uint (c :: byte) \<longleftrightarrow> b = c"
  by (rule word_uint_eq_iff [symmetric])

lemma uint_newline: "uint (b :: byte) = 10 \<longleftrightarrow> b = 0x0A"
  using uint_byte_eq_iff [of b "0x0A"] by simp

lemma uint_continuation: "uint (b :: byte) = 255 \<longleftrightarrow> b = 0xFF"
  using uint_byte_eq_iff [of b "0xFF"] by simp

lemma read_uint64_loop_next:
  "read_uint64_loop v c i = Inr (v1, c1, i1) \<Longrightarrow>
     set i1 \<subseteq> set i \<and> ((c1 = c \<and> \<not> isdigit c) \<or> c1 = EOF \<or> c1 \<in> uint ` set i)"
proof (induction v c i rule: read_uint64_loop.induct)
  case (1 v c i)
  note unf = read_uint64_loop.simps [of v c i]
  show ?case
  proof (cases "isdigit c")
    case False
    with "1.prems" show ?thesis by (simp add: unf)
  next
    case True
    obtain c2 i2 where g: "getc i = (c2, i2)" by (cases "getc i")
    let ?v2 = "uint64 (uint64 (v * 10) + nat (c - 48))"
    from True "1.prems" g have ge: "\<not> ?v2 < v" and rec: "read_uint64_loop ?v2 c2 i2 = Inr (v1, c1, i1)"
      by (auto simp: Let_def unf split: if_splits)
    from "1.IH" [OF True refl refl refl ge g [symmetric] rec]
    have ih: "set i1 \<subseteq> set i2 \<and> ((c1 = c2 \<and> \<not> isdigit c2) \<or> c1 = EOF \<or> c1 \<in> uint ` set i2)" .
    show ?thesis
    proof (cases i)
      case Nil
      with g ih show ?thesis by auto
    next
      case (Cons b bs)
      with g ih show ?thesis by auto
    qed
  qed
qed

lemma read_uint64_next:
  assumes "read_uint64 i c include_next = Inr (Some v, c1, i1)"
  shows "set i1 \<subseteq> set i \<and> (c1 = EOF \<or> c1 \<in> uint ` set i)"
proof -
  obtain c0 i0 where g: "(if \<not> include_next then getc i else (c, i)) = (c0, i0)"
    by (cases "if \<not> include_next then getc i else (c, i)")
  from assms g have d: "isdigit c0" and l: "read_uint64_loop 0 c0 i0 = Inr (v, c1, i1)"
    by (auto simp: read_uint64_def split: if_splits sum.splits)
  from g have sub: "set i0 \<subseteq> set i"
    by (cases i) (auto split: if_splits)
  from read_uint64_loop_next [OF l] d sub show ?thesis by auto
qed

lemma FormatHits_read_line_no_newline:
  "c \<noteq> 10 \<Longrightarrow> 0x0A \<notin> set (inHits s) \<Longrightarrow> \<exists>e. FormatHits_read_line s c is_first = Inl e"
proof (induction s c is_first rule: FormatHits_read_line.induct)
  case (1 s c is_first)
  note unf = FormatHits_read_line.simps [of s c is_first]
  show ?case
  proof (cases "read_uint64 (inHits s) c is_first")
    case (Inl e)
    with "1.prems" show ?thesis by (simp add: unf)
  next
    case (Inr x)
    then obtain o1 c1 i where x: "read_uint64 (inHits s) c is_first = Inr (o1, c1, i)"
      by (cases x) auto
    show ?thesis
    proof (cases o1)
      case None
      with x "1.prems" show ?thesis by (simp add: unf)
    next
      case (Some v)
      from read_uint64_next [OF x [unfolded Some]] "1.prems"(2)
      have c1: "c1 \<noteq> 10" and i: "0x0A \<notin> set i"
        by (auto simp: EOF_def uint_newline)
      show ?thesis
      proof (cases "c1 \<noteq> 44 \<and> c1 \<noteq> 10")
        case True
        with x Some "1.prems" show ?thesis by (simp add: unf)
      next
        case sep: False
        show ?thesis
        proof (cases "v \<ge> bits_per_recordHits s")
          case True
          with x Some sep "1.prems" show ?thesis by (simp add: unf)
        next
          case False
          from i have "0x0A \<notin> set (inHits (s\<lparr>inHits := i,
              bufferHits := (bufferHits s)[v := (bufferHits s ! v \<noteq> True)]\<rparr>))" by simp
          from "1.IH" [OF "1.prems"(1) x [unfolded Some] refl refl refl sep False c1 this]
          obtain e where "FormatHits_read_line
              (s\<lparr>inHits := i, bufferHits := (bufferHits s)[v := (bufferHits s ! v \<noteq> True)]\<rparr>)
              c1 False = Inl e" ..
          with x Some sep False "1.prems"(1) show ?thesis by (simp add: unf)
        qed
      qed
    qed
  qed
qed

lemma FormatHits_start_record_no_newline:
  assumes "inHits s \<noteq> []" "0x0A \<notin> set (inHits s)"
  shows "\<exists>e. FormatHits_start_record s = Inl e"
proof -
  from assms(1) obtain b bs where i: "inHits s = b # bs" by (cases "inHits s") auto
  with assms(2) have c: "uint b \<noteq> 10" and rest: "0x0A \<notin> set bs" by (auto simp: uint_newline)
  from rest have "0x0A \<notin> set (inHits (s\<lparr>inHits := bs, bufferHits := replicate (length (bufferHits s)) False,
                        position_in_bufferHits := 0\<rparr>))" by simp
  from FormatHits_read_line_no_newline [OF c this, of True] i show ?thesis
    by (auto simp: FormatHits_start_record_def uint_not_EOF)
qed

subsection \<open>The R8 decoder at the end of the stream\<close>

lemma count_zeroes_continuations:
  "set (inR8 s) \<subseteq> {0xFF} \<Longrightarrow>
     count_zeroes s =
       (if inR8 s = [] \<and> buffered_0s s = 0 \<and> positionR8 s = 0 then Inr (False, s)
        else Inl r8_ended_on_continuation)"
proof (induction s rule: count_zeroes.induct)
  case (1 s)
  note unf = count_zeroes.simps [of s]
  show ?case
  proof (cases "inR8 s")
    case Nil
    then have "s\<lparr>inR8 := []\<rparr> = s" by simp
    with Nil show ?thesis by (simp add: unf)
  next
    case (Cons b bs)
    with "1.prems" have b: "b = 0xFF" and bs: "set bs \<subseteq> {0xFF}" by auto
    from Cons b have g: "getc (inR8 s) = (255, bs)" by simp
    have ne: "(255 :: int) \<noteq> EOF" by (simp add: EOF_def)
    from bs have "set (inR8 (s\<lparr>inR8 := bs, buffered_0s := buffered_0s s + nat 255\<rparr>)) \<subseteq> {0xFF}"
      by simp
    from "1.IH" [OF g [symmetric] ne refl this] Cons g ne show ?thesis
      by (simp add: unf)
  qed
qed

lemma count_zeroes_run:
  "v \<noteq> 0xFF \<Longrightarrow> inR8 s = replicate k 0xFF @ v # rest \<Longrightarrow>
     count_zeroes s = Inr (True, s\<lparr>inR8 := rest, buffered_0s := buffered_0s s + 255 * k + unat v\<rparr>)"
proof (induction k arbitrary: s)
  case 0
  then have g: "getc (inR8 s) = (uint v, rest)" by simp
  from "0.prems"(1) have "uint v \<noteq> 255" by (simp add: uint_continuation)
  with g show ?case by (simp add: count_zeroes.simps [of s] uint_not_EOF)
next
  case (Suc k)
  then have g: "getc (inR8 s) = (255, replicate k 0xFF @ v # rest)" by simp
  have ne: "(255 :: int) \<noteq> EOF" by (simp add: EOF_def)
  have "inR8 (s\<lparr>inR8 := replicate k 0xFF @ v # rest, buffered_0s := buffered_0s s + nat 255\<rparr>)
        = replicate k 0xFF @ v # rest" by simp
  from Suc.IH [OF Suc.prems(1) this] g ne show ?case
    by (simp add: count_zeroes.simps [of s])
qed

lemma FormatR8_start_record_continuations:
  assumes "inR8 s \<noteq> []" "set (inR8 s) \<subseteq> {0xFF}"
  shows "\<exists>e. FormatR8_start_record s = Inl e"
  using assms count_zeroes_continuations [of "s\<lparr>positionR8 := 0, have_seen_terminal_1 := False\<rparr>"]
  by (simp add: FormatR8_start_record_def maybe_buffer_data_def)

lemma FormatR8_read_bit_continuations:
  assumes "buffered_0s s = 0" "buffered_1s s = 0" "set (inR8 s) \<subseteq> {0xFF}"
  shows "\<exists>e. FormatR8_read_bit s = Inl e"
  using assms count_zeroes_continuations [of s]
  by (simp add: FormatR8_read_bit_def assert_maybe_buffer_data_def maybe_buffer_data_def)

lemma maybe_buffer_data_no_terminator:
  assumes "buffered_0s s = 0" "buffered_1s s = 0" "\<not> FormatR8_is_end_of_record s"
    "v \<noteq> 0xFF" "inR8 s = replicate k 0xFF @ [v]"
    "positionR8 s + 255 * k + unat v + 1 = bits_per_recordR8 s"
  shows "maybe_buffer_data s = Inl r8_no_terminator_before_end_of_input"
  using assms count_zeroes_run [OF assms(4,5)]
  by (simp add: maybe_buffer_data_def Let_def)

subsection \<open>When \<^verbatim>\<open>read_bits_into_bytes\<close> returns fewer bits than the buffer holds\<close>

lemma default_bit_loop_stop:
  assumes "default_bit_loop rb ie crt rt k b n s = Inr (True, b1, n1, s1)"
  shows "ie s1 = Inr True \<or> crt s1 \<noteq> rt"
  using assms
proof (induction rb ie crt rt k b n s rule: default_bit_loop.induct)
  case (1 rb ie crt rt k b n s)
  note loop = "1.prems"
  note unf = default_bit_loop.simps [of rb ie crt rt k b n s]
  from loop have k: "k < 8" by (auto simp: unf split: if_splits)
  with loop obtain x s0 where r: "rb s = Inr (x, s0)"
    by (auto simp: unf split: sum.splits)
  with k loop obtain e where e: "ie s0 = Inr e"
    by (auto simp: unf Let_def split: sum.splits)
  show ?case
  proof (cases "e \<or> crt s0 \<noteq> rt")
    case True
    with k r e loop have "s1 = s0" by (auto simp: unf Let_def)
    with True e show ?thesis by auto
  next
    case False
    with k r e loop
    have "default_bit_loop rb ie crt rt (k + 1) (b OR push_bit k (of_bool x)) (n + 1) s0
            = Inr (True, b1, n1, s1)"
      by (auto simp: unf Let_def)
    from "1.IH" [OF k r refl refl refl e False this] show ?thesis .
  qed
qed

lemma default_byte_loop_stop:
  assumes "default_byte_loop rb ie crt rt out n s = Inr (n1, out1, s1)"
  shows "n1 = n + 8 * length out \<or> ie s1 = Inr True \<or> crt s1 \<noteq> rt"
  using assms
proof (induction out arbitrary: n s n1 out1)
  case Nil
  then show ?case by simp
next
  case (Cons b out)
  from Cons.prems obtain ret b0 n0 s0 where
    l: "default_bit_loop rb ie crt rt 0 0 n s = Inr (ret, b0, n0, s0)"
    by (auto split: sum.splits)
  show ?case
  proof (cases ret)
    case True
    with Cons.prems l have "s1 = s0" by simp
    moreover from l True have "default_bit_loop rb ie crt rt 0 0 n s = Inr (True, b0, n0, s0)"
      by simp
    from default_bit_loop_stop [OF this] have "ie s0 = Inr True \<or> crt s0 \<noteq> rt" .
    ultimately show ?thesis by simp
  next
    case False
    with Cons.prems l obtain n2 out2 where
      rec: "default_byte_loop rb ie crt rt out n0 s0 = Inr (n2, out2, s1)" and n: "n1 = n2"
      by (auto split: sum.splits)
    from default_bit_loop_byte [OF l] False have "n0 = n + 8" by auto
    with Cons.IH [OF rec] n show ?thesis by auto
  qed
qed

lemma default_read_bits_into_bytes_stop:
  assumes "MeasureRecordReader_read_bits_into_bytes rb ie crt s out = Inr (n, out1, s1)"
  shows "n = 8 * length out \<or> ie s1 = Inr True \<or> crt s1 \<noteq> crt s"
proof -
  from assms obtain e where e: "ie s = Inr e"
    by (auto simp: MeasureRecordReader_read_bits_into_bytes_def split: sum.splits)
  show ?thesis
  proof (cases e)
    case True
    with assms e show ?thesis
      by (simp add: MeasureRecordReader_read_bits_into_bytes_def)
  next
    case False
    with assms e have "default_byte_loop rb ie crt (crt s) out 0 s = Inr (n, out1, s1)"
      by (simp add: MeasureRecordReader_read_bits_into_bytes_def)
    from default_byte_loop_stop [OF this] show ?thesis by simp
  qed
qed

lemma FormatR8_bit_loop_stop:
  assumes "FormatR8_bit_loop k b n s = Inr (ret, b1, n1, s1)" "k \<le> 8"
  shows "(ret \<longrightarrow> FormatR8_is_end_of_record s1) \<and> (\<not> ret \<longrightarrow> n1 + k = n + 8)"
  using assms
proof (induction k b n s rule: FormatR8_bit_loop.induct)
  case (1 k b n s)
  note loop = "1.prems"(1)
  note unf = FormatR8_bit_loop.simps [of k b n s]
  show ?case
  proof (cases "k < 8")
    case False
    with loop "1.prems"(2) show ?thesis by (auto simp: unf)
  next
    case True
    let ?pre = "if buffered_0s s = 0 \<and> buffered_1s s = 0 \<and> \<not> have_seen_terminal_1 s
                then assert_maybe_buffer_data s else Inr s"
    from True loop obtain s0 where p: "?pre = Inr s0"
      by (auto simp: unf split: sum.splits)
    show ?thesis
    proof (cases "FormatR8_is_end_of_record s0")
      case e: True
      with True p loop show ?thesis by (auto simp: unf)
    next
      case e: False
      with True p loop obtain x s2 where r: "FormatR8_read_bit s0 = Inr (x, s2)"
        and rec: "FormatR8_bit_loop (k + 1) (b OR push_bit k (of_bool x)) (n + 1) s2
                  = Inr (ret, b1, n1, s1)"
        by (auto simp: unf split: sum.splits)
      from True have "k + 1 \<le> 8" by simp
      from "1.IH" [OF True p e r refl rec this] show ?thesis by auto
    qed
  qed
qed


lemma FormatR8_byte_loop_stop:
  assumes "FormatR8_byte_loop out n s = Inr (n1, out1, s1)"
  shows "n1 = n + 8 * length out \<or> FormatR8_is_end_of_record s1"
  using assms
proof (induction out arbitrary: n s n1 out1)
  case Nil
  then show ?case by simp
next
  case (Cons b out)
  show ?case
  proof (cases "buffered_0s s \<ge> 8")
    case True
    with Cons.prems obtain n2 out2 where
      "FormatR8_byte_loop out (n + 8)
         (s\<lparr>positionR8 := positionR8 s + 8, buffered_0s := buffered_0s s - 8\<rparr>) = Inr (n2, out2, s1)"
      and "n1 = n2"
      by (auto split: sum.splits)
    with Cons.IH [OF this(1)] show ?thesis by auto
  next
    case False
    with Cons.prems obtain ret b0 n0 s0 where
      l: "FormatR8_bit_loop 0 0 n s = Inr (ret, b0, n0, s0)"
      by (auto split: sum.splits)
    from FormatR8_bit_loop_stop [OF l] have st: "ret \<longrightarrow> FormatR8_is_end_of_record s0"
      "\<not> ret \<longrightarrow> n0 = n + 8" by auto
    show ?thesis
    proof (cases ret)
      case True
      with Cons.prems False l have "s1 = s0" by simp
      with st True show ?thesis by simp
    next
      case nr: False
      with Cons.prems False l obtain n2 out2 where
        rec: "FormatR8_byte_loop out n0 s0 = Inr (n2, out2, s1)" and n: "n1 = n2"
        by (auto split: sum.splits)
      from Cons.IH [OF rec] st nr n show ?thesis by auto
    qed
  qed
qed

lemma FormatR8_read_bits_into_bytes_continuations:
  assumes "buffered_0s s = 0" "buffered_1s s = 0" "\<not> have_seen_terminal_1 s"
    "set (inR8 s) \<subseteq> {0xFF}" "out \<noteq> []"
  shows "\<exists>e. FormatR8_read_bits_into_bytes s out = Inl e"
proof -
  from assms(5) obtain b bs where out: "out = b # bs" by (cases out) auto
  have "\<exists>e. FormatR8_bit_loop 0 0 0 s = Inl e"
  proof (cases "NDEBUG s")
    case True
    with assms(1-3) show ?thesis
      by (simp add: FormatR8_bit_loop.simps [of 0 0 0 s] assert_maybe_buffer_data_def
            FormatR8_is_end_of_record_def FormatR8_read_bit_def)
  next
    case False
    with assms(1-4) count_zeroes_continuations [of s]
    have "\<exists>e. assert_maybe_buffer_data s = Inl e"
      by (simp add: assert_maybe_buffer_data_def maybe_buffer_data_def)
    then obtain e where "assert_maybe_buffer_data s = Inl e" ..
    with assms(1-3) show ?thesis
      by (simp add: FormatR8_bit_loop.simps [of 0 0 0 s])
  qed
  then obtain e where "FormatR8_bit_loop 0 0 0 s = Inl e" ..
  with assms(1) out show ?thesis
    by (simp add: FormatR8_read_bits_into_bytes_def)
qed

section \<open>\<^verbatim>\<open>start_record\<close> returns false at the end of the stream\<close>

text \<open>
  Claim C8, as stated, fails: \<^verbatim>\<open>start_record\<close> does not return false once per stream. On the
  01 stream \<^verbatim>\<open>"010\n"\<close> with \<open>m = 3\<close> the first \<^verbatim>\<open>start_record\<close> returns true, the record is
  read, the second \<^verbatim>\<open>start_record\<close> returns false, and so does the third: \<^verbatim>\<open>getc\<close> keeps
  returning \<^verbatim>\<open>EOF\<close> and no decoder remembers that it has reported the end.
\<close>

theorem C8_counterexample:
  "start_record (Reader01 (Format01 [0x30, 0x31, 0x30, 0x0A] 3)) =
     Inr (True, Reader01 \<lparr>in01 = [0x31, 0x30, 0x0A], payload01 = 0x30, position01 = 0,
                          bits_per_record01 = 3\<rparr>)
   \<and> read_bits read_bit 3
        (Reader01 \<lparr>in01 = [0x31, 0x30, 0x0A], payload01 = 0x30, position01 = 0,
                   bits_per_record01 = 3\<rparr>) =
     Inr ([False, True, False],
          Reader01 \<lparr>in01 = [], payload01 = 0x0A, position01 = 3, bits_per_record01 = 3\<rparr>)
   \<and> start_record
        (Reader01 \<lparr>in01 = [], payload01 = 0x0A, position01 = 3, bits_per_record01 = 3\<rparr>) =
     Inr (False, Reader01 \<lparr>in01 = [], payload01 = EOF, position01 = 0, bits_per_record01 = 3\<rparr>)
   \<and> start_record
        (Reader01 \<lparr>in01 = [], payload01 = EOF, position01 = 0, bits_per_record01 = 3\<rparr>) =
     Inr (False, Reader01 \<lparr>in01 = [], payload01 = EOF, position01 = 0, bits_per_record01 = 3\<rparr>)"
  by code_simp

text \<open>
  Claim C8, amended. For every decoder, in any state: \<^verbatim>\<open>start_record\<close>, when it returns,
  returns false exactly when the stream is exhausted at the call, so never while bytes
  remain unread. On an exhausted stream it does return false (for R8: with its run counters
  empty, which holds whenever a started record has been read to its end), and it returns
  false again at every later call. \<^verbatim>\<open>next_record\<close> returns false only with the stream
  exhausted, and does so at the end of the last record.
\<close>

theorem C8_start_record_false_at_end_of_stream:
  "(start_record r = Inr (b, r1) \<longrightarrow> b = (stream_of r \<noteq> []))
   \<and> (stream_of r = [] \<and> run_counters_empty r \<longrightarrow>
        (\<exists>r2. start_record r = Inr (False, r2)))
   \<and> (start_record r = Inr (False, r1) \<longrightarrow> (\<exists>r2. start_record r1 = Inr (False, r2)))
   \<and> (next_record r = Inr (False, r1) \<longrightarrow> stream_of r1 = [])
   \<and> (is_end_of_record r = Inr True \<and> stream_of r = [] \<and> run_counters_empty r \<longrightarrow>
        (\<exists>r2. next_record r = Inr (False, r2)))
   \<and> (start_record r0 = Inr (True, r) \<and> read_bits read_bit n r = Inr (bs, r1)
        \<and> is_end_of_record r1 = Inr True \<longrightarrow> run_counters_empty r1)"
proof -
  have 1: "start_record r = Inr (b, r1) \<longrightarrow> b = (stream_of r \<noteq> [])"
    using start_record_flag by blast
  have 2: "stream_of r = [] \<and> run_counters_empty r \<longrightarrow> (\<exists>r2. start_record r = Inr (False, r2))"
    using start_record_at_end [of r] by blast
  have 3: "start_record r = Inr (False, r1) \<longrightarrow> (\<exists>r2. start_record r1 = Inr (False, r2))"
    using start_record_false_again [of r r1] by blast
  have 4: "next_record r = Inr (False, r1) \<longrightarrow> stream_of r1 = []"
    using next_record_false by blast
  have 5: "is_end_of_record r = Inr True \<and> stream_of r = [] \<and> run_counters_empty r \<longrightarrow>
        (\<exists>r2. next_record r = Inr (False, r2))"
    using next_record_at_end [of r] by blast
  have 6: "start_record r0 = Inr (True, r) \<and> read_bits read_bit n r = Inr (bs, r1)
        \<and> is_end_of_record r1 = Inr True \<longrightarrow> run_counters_empty r1"
    using run_counters_empty_at_end [of r0 r n bs r1] by blast
  from 1 2 3 4 5 6 show ?thesis by - (intro conjI; assumption)
qed


definition r8_sample_start :: MeasureRecordReader where
  "r8_sample_start = ReaderR8 (FormatR8 False [0x05] 5)"

definition r8_sample :: "nat \<Rightarrow> MeasureRecordReader" where
  "r8_sample p = ReaderR8 \<lparr>NDEBUG = False, inR8 = [], bits_per_recordR8 = 5, positionR8 = p,
     have_seen_terminal_1 = True, buffered_0s = 5 - p, buffered_1s = 0\<rparr>"

definition r8_sample_ended :: MeasureRecordReader where
  "r8_sample_ended = ReaderR8 \<lparr>NDEBUG = False, inR8 = [], bits_per_recordR8 = 5, positionR8 = 0,
     have_seen_terminal_1 = False, buffered_0s = 0, buffered_1s = 0\<rparr>"

theorem C8_start_record_false_at_end_of_stream_witness:
  "start_record r8_sample_start = Inr (True, r8_sample 0)
   \<and> read_bits read_bit 5 (r8_sample 0) = Inr ([False, False, False, False, False], r8_sample 5)
   \<and> is_end_of_record (r8_sample 5) = Inr True
   \<and> run_counters_empty (r8_sample 5)
   \<and> stream_of (r8_sample 5) = []
   \<and> start_record (r8_sample 5) = Inr (False, r8_sample_ended)
   \<and> False = (stream_of (r8_sample 5) \<noteq> [])
   \<and> (\<exists>r2. start_record (r8_sample 5) = Inr (False, r2))
   \<and> (\<exists>r2. start_record r8_sample_ended = Inr (False, r2))
   \<and> next_record (r8_sample 5) = Inr (False, r8_sample_ended)
   \<and> stream_of r8_sample_ended = []
   \<and> (\<exists>r2. next_record (r8_sample 5) = Inr (False, r2))"
proof -
  have a: "start_record r8_sample_start = Inr (True, r8_sample 0)" by code_simp
  have b: "read_bits read_bit 5 (r8_sample 0) = Inr ([False, False, False, False, False], r8_sample 5)"
    by code_simp
  have c: "is_end_of_record (r8_sample 5) = Inr True" by code_simp
  have e: "stream_of (r8_sample 5) = []" by code_simp
  have f: "start_record (r8_sample 5) = Inr (False, r8_sample_ended)" by code_simp
  have g: "next_record (r8_sample 5) = Inr (False, r8_sample_ended)" by code_simp
  note t1 = C8_start_record_false_at_end_of_stream [where ?r0.0 = r8_sample_start
      and r = "r8_sample 0" and n = 5 and bs = "[False, False, False, False, False]"
      and ?r1.0 = "r8_sample 5"]
  note t2 = C8_start_record_false_at_end_of_stream [where r = "r8_sample 5" and b = False
      and ?r1.0 = r8_sample_ended]
  from t1 a b c have d: "run_counters_empty (r8_sample 5)" by blast
  from t2 f have h: "False = (stream_of (r8_sample 5) \<noteq> [])" by blast
  from t2 e d have i: "\<exists>r2. start_record (r8_sample 5) = Inr (False, r2)" by blast
  from t2 f have j: "\<exists>r2. start_record r8_sample_ended = Inr (False, r2)" by blast
  from t2 g have k: "stream_of r8_sample_ended = []" by blast
  from t2 c e d have l: "\<exists>r2. next_record (r8_sample 5) = Inr (False, r2)" by blast
  from a b c d e f h i j g k l show ?thesis by - (intro conjI; assumption)
qed

subsection \<open>The DETS decoder reads the end of the stream as a newline\<close>

text \<open>
  On a stream without a newline the lexer helpers and the loop of the DETS \<^verbatim>\<open>start_record\<close>
  do what they do on the same stream followed by a newline. A pending input, the byte in
  \<open>c\<close> and the rest of the stream, is written \<open>getc x\<close> for the bytes \<open>x\<close> not yet looked at.
\<close>

lemma getc_append_newline:
  "getc (x @ [0x0A]) = (if x = [] then (10, []) else (fst (getc x), snd (getc x) @ [0x0A]))"
  by (cases x) simp_all

lemma skip_spaces_getc:
  "skip_spaces (fst (getc x)) (snd (getc x)) = getc (dropWhile (\<lambda>b. b = 0x20) x)"
proof (induction x)
  case Nil
  show ?case by (simp add: skip_spaces.simps [of "- 1"] EOF_def)
next
  case (Cons b bs)
  show ?case
  proof (cases "b = 0x20")
    case True
    with Cons show ?thesis by (simp add: skip_spaces.simps [of 32 bs] case_prod_unfold)
  next
    case False
    then have "uint b \<noteq> 32" using uint_byte_eq_iff [of b "0x20"] by simp
    with False show ?thesis by (simp add: skip_spaces.simps [of "uint b"])
  qed
qed

lemma dropWhile_spaces_newline:
  "dropWhile (\<lambda>b. b = 0x20) (x @ [0x0A :: byte]) = dropWhile (\<lambda>b. b = 0x20) x @ [0x0A]"
  by (induction x) simp_all

lemma consume_keyword_chars_newline:
  assumes "\<forall>c \<in> set cs. of_char c \<noteq> (10 :: int)"
  shows "(\<exists>e. consume_keyword_chars cs (fst (getc x)) (snd (getc x)) = Inl e
              \<and> consume_keyword_chars cs (fst (getc (x @ [0x0A]))) (snd (getc (x @ [0x0A]))) = Inl e)
         \<or> (\<exists>y. consume_keyword_chars cs (fst (getc x)) (snd (getc x)) = Inr (getc y)
              \<and> consume_keyword_chars cs (fst (getc (x @ [0x0A]))) (snd (getc (x @ [0x0A])))
                  = Inr (getc (y @ [0x0A]))
              \<and> set y \<subseteq> set x)"
  using assms
proof (induction cs arbitrary: x)
  case Nil
  show ?case by auto
next
  case (Cons c cs)
  show ?case
  proof (cases x)
    case Nil
    have "(of_char c :: int) = int (of_char c :: nat)" by (simp add: of_nat_of_char)
    then have "(of_char c :: int) \<noteq> EOF" unfolding EOF_def by linarith
    with Nil Cons.prems show ?thesis by simp
  next
    case (Cons b bs)
    from Cons.prems have cs: "\<forall>c \<in> set cs. of_char c \<noteq> (10 :: int)" by simp
    from Cons.IH [OF cs, of bs] Cons show ?thesis
      by (auto split: prod.splits)
  qed
qed

lemma read_uint64_loop_newline:
  "(\<exists>e. read_uint64_loop v (fst (getc x)) (snd (getc x)) = Inl e
        \<and> read_uint64_loop v (fst (getc (x @ [0x0A]))) (snd (getc (x @ [0x0A]))) = Inl e)
   \<or> (\<exists>v1 y. read_uint64_loop v (fst (getc x)) (snd (getc x)) = Inr (v1, getc y)
        \<and> read_uint64_loop v (fst (getc (x @ [0x0A]))) (snd (getc (x @ [0x0A])))
            = Inr (v1, getc (y @ [0x0A]))
        \<and> set y \<subseteq> set x \<and> length y \<le> length x
        \<and> (isdigit (fst (getc x)) \<longrightarrow> length y < length x))"
proof (induction x arbitrary: v)
  case Nil
  have "read_uint64_loop v (fst (getc [])) (snd (getc [])) = Inr (v, getc [])"
    "read_uint64_loop v (fst (getc ([] @ [0x0A]))) (snd (getc ([] @ [0x0A])))
       = Inr (v, getc ([] @ [0x0A]))"
    "\<not> isdigit (fst (getc []))"
    by (simp_all add: read_uint64_loop.simps [of v "- 1"] read_uint64_loop.simps [of v 10]
          isdigit_def EOF_def)
  then show ?case by (intro disjI2 exI [of _ v] exI [of _ "[]"]) simp
next
  case (Cons b bs)
  note unf = read_uint64_loop.simps [of v "uint b"]
  show ?case
  proof (cases "isdigit (uint b)")
    case False
    then have "read_uint64_loop v (uint b) bs = Inr (v, getc (b # bs))"
      "read_uint64_loop v (uint b) (bs @ [0x0A]) = Inr (v, getc ((b # bs) @ [0x0A]))"
      by (simp_all add: unf)
    with False show ?thesis by (intro disjI2 exI [of _ v] exI [of _ "b # bs"]) simp
  next
    case True
    let ?v2 = "uint64 (uint64 (v * 10) + nat (uint b - 48))"
    show ?thesis
    proof (cases "?v2 < v")
      case big: True
      with True show ?thesis by (simp add: unf Let_def)
    next
      case ok: False
      with True have st:
        "read_uint64_loop v (uint b) bs = read_uint64_loop ?v2 (fst (getc bs)) (snd (getc bs))"
        "read_uint64_loop v (uint b) (bs @ [0x0A])
           = read_uint64_loop ?v2 (fst (getc (bs @ [0x0A]))) (snd (getc (bs @ [0x0A])))"
        by (simp_all add: unf Let_def split: prod.splits)
      from Cons.IH [of ?v2]
      consider e where "read_uint64_loop ?v2 (fst (getc bs)) (snd (getc bs)) = Inl e"
          "read_uint64_loop ?v2 (fst (getc (bs @ [0x0A]))) (snd (getc (bs @ [0x0A]))) = Inl e"
        | v1 y where "read_uint64_loop ?v2 (fst (getc bs)) (snd (getc bs)) = Inr (v1, getc y)"
          "read_uint64_loop ?v2 (fst (getc (bs @ [0x0A]))) (snd (getc (bs @ [0x0A])))
             = Inr (v1, getc (y @ [0x0A]))"
          "set y \<subseteq> set bs" "length y \<le> length bs"
        by blast
      then show ?thesis
      proof cases
        case 1
        with st show ?thesis by simp
      next
        case 2
        with st have "read_uint64_loop v (fst (getc (b # bs))) (snd (getc (b # bs)))
            = Inr (v1, getc y)"
          "read_uint64_loop v (fst (getc ((b # bs) @ [0x0A]))) (snd (getc ((b # bs) @ [0x0A])))
            = Inr (v1, getc (y @ [0x0A]))"
          "set y \<subseteq> set (b # bs)" "length y < length (b # bs)"
          by auto
        then show ?thesis by (intro disjI2 exI [of _ v1] exI [of _ y]) simp
      qed
    qed
  qed
qed

lemma read_uint64_newline:
  "(\<exists>e. read_uint64 x c False = Inl e \<and> read_uint64 (x @ [0x0A]) c False = Inl e)
   \<or> (\<exists>y. read_uint64 x c False = Inr (None, getc y)
        \<and> read_uint64 (x @ [0x0A]) c False = Inr (None, getc (y @ [0x0A])))
   \<or> (\<exists>v y. read_uint64 x c False = Inr (Some v, getc y)
        \<and> read_uint64 (x @ [0x0A]) c False = Inr (Some v, getc (y @ [0x0A]))
        \<and> set y \<subseteq> set x \<and> length y < length x)"
proof (cases "isdigit (fst (getc x))")
  case False
  then have "\<not> isdigit (fst (getc (x @ [0x0A])))"
    by (cases x) (simp_all add: isdigit_def)
  with False have "read_uint64 x c False = Inr (None, getc x)"
      "read_uint64 (x @ [0x0A]) c False = Inr (None, getc (x @ [0x0A]))"
    by (simp_all add: read_uint64_def case_prod_unfold)
  then show ?thesis by blast
next
  case True
  then have d: "isdigit (fst (getc (x @ [0x0A])))"
    by (cases x) (simp_all add: isdigit_def EOF_def)
  from read_uint64_loop_newline [of 0 x] True
  consider e where "read_uint64_loop 0 (fst (getc x)) (snd (getc x)) = Inl e"
      "read_uint64_loop 0 (fst (getc (x @ [0x0A]))) (snd (getc (x @ [0x0A]))) = Inl e"
    | v1 y where "read_uint64_loop 0 (fst (getc x)) (snd (getc x)) = Inr (v1, getc y)"
      "read_uint64_loop 0 (fst (getc (x @ [0x0A]))) (snd (getc (x @ [0x0A])))
         = Inr (v1, getc (y @ [0x0A]))"
      "set y \<subseteq> set x" "length y < length x"
    by blast
  then show ?thesis
  proof cases
    case 1
    with True d show ?thesis by (simp add: read_uint64_def case_prod_unfold)
  next
    case 2
    with True d have "read_uint64 x c False = Inr (Some v1, getc y)"
      "read_uint64 (x @ [0x0A]) c False = Inr (Some v1, getc (y @ [0x0A]))"
      by (simp_all add: read_uint64_def case_prod_unfold)
    with 2(3,4) show ?thesis by blast
  qed
qed

lemma FormatDets_read_shot_newline:
  "0x0A \<notin> set x \<Longrightarrow>
     FormatDets_read_shot (s\<lparr>inDets := snd (getc (x @ [0x0A]))\<rparr>) (fst (getc (x @ [0x0A])))
       = FormatDets_read_shot (s\<lparr>inDets := snd (getc x)\<rparr>) (fst (getc x))"
proof (induction x arbitrary: s rule: length_induct)
  case (1 x)
  let ?y = "dropWhile (\<lambda>b. b = 0x20) x"
  let ?c = "fst (getc x)" and ?c' = "fst (getc (x @ [0x0A]))"
  let ?s = "s\<lparr>inDets := snd (getc x)\<rparr>" and ?s' = "s\<lparr>inDets := snd (getc (x @ [0x0A]))\<rparr>"
  note unf = FormatDets_read_shot.simps [of ?s ?c] FormatDets_read_shot.simps [of ?s' ?c']
  have sk: "skip_spaces ?c (inDets ?s) = getc ?y"
    "skip_spaces ?c' (inDets ?s') = getc (?y @ [0x0A])"
    using skip_spaces_getc [of x] skip_spaces_getc [of "x @ [0x0A]"]
    by (simp_all add: dropWhile_spaces_newline)
  have sp: "(?c' = 32) = (?c = 32)" by (cases x) (simp_all add: EOF_def)
  show ?case
  proof (cases ?y)
    case Nil
    with sk show ?thesis by (simp add: unf Let_def)
  next
    case (Cons b bs)
    then have "b \<in> set x" by (metis list.set_intros(1) set_dropWhileD)
    with "1.prems" have b10: "b \<noteq> 0x0A" by auto
    then have u10: "uint b \<noteq> 10" by (simp add: uint_newline)
    from Cons have bs: "set bs \<subseteq> set x" "length bs < length x"
      using set_dropWhileD [of _ "\<lambda>b. b = 0x20" x] length_dropWhile_le [of "\<lambda>b. b = 0x20" x]
      by (auto simp: subset_iff)
    from sk Cons have sk1: "skip_spaces ?c (inDets ?s) = (uint b, bs)"
      "skip_spaces ?c' (inDets ?s') = (uint b, bs @ [0x0A])" by simp_all
    from read_uint64_newline [of bs "uint b"]
    consider e where "read_uint64 bs (uint b) False = Inl e"
        "read_uint64 (bs @ [0x0A]) (uint b) False = Inl e"
      | y where "read_uint64 bs (uint b) False = Inr (None, getc y)"
        "read_uint64 (bs @ [0x0A]) (uint b) False = Inr (None, getc (y @ [0x0A]))"
      | v y where "read_uint64 bs (uint b) False = Inr (Some v, getc y)"
        "read_uint64 (bs @ [0x0A]) (uint b) False = Inr (Some v, getc (y @ [0x0A]))"
        "set y \<subseteq> set bs" "length y < length bs"
      by blast
    then show ?thesis
    proof cases
      case 1
      with sk1 sp u10 show ?thesis by (auto simp: unf Let_def uint_not_EOF)
    next
      case 2
      with sk1 sp u10 show ?thesis
        by (auto simp: unf Let_def uint_not_EOF case_prod_unfold)
    next
      case 3
      from 3(3,4) bs "1.prems" have y: "length y < length x" "0x0A \<notin> set y" by auto
      have ih: "FormatDets_read_shot (s\<lparr>inDets := snd (getc (y @ [0x0A])), bufferDets := B\<rparr>)
                  (fst (getc (y @ [0x0A])))
                = FormatDets_read_shot (s\<lparr>inDets := snd (getc y), bufferDets := B\<rparr>)
                    (fst (getc y))" for B
      proof -
        obtain i0 buf p m d l where sf: "s = \<lparr>inDets = i0, bufferDets = buf,
            position_in_bufferDets = p, m_bits_per_record = m, d_bits_per_record = d,
            l_bits_per_record = l\<rparr>" by (cases s) auto
        from "1.IH" [rule_format, OF y, of "s\<lparr>bufferDets := B\<rparr>"] show ?thesis
          by (simp add: sf)
      qed
      from 3(1,2) sk1 sp u10 ih show ?thesis
        by (auto simp: unf Let_def uint_not_EOF case_prod_unfold)
    qed
  qed
qed

lemma FormatDets_start_record_newline:
  assumes "inDets s \<noteq> []" "0x0A \<notin> set (inDets s)"
  shows "FormatDets_start_record (s\<lparr>inDets := inDets s @ [0x0A]\<rparr>) = FormatDets_start_record s"
proof -
  obtain i0 buf p m d l where sf: "s = \<lparr>inDets = i0, bufferDets = buf,
      position_in_bufferDets = p, m_bits_per_record = m, d_bits_per_record = d,
      l_bits_per_record = l\<rparr>" by (cases s) auto
  from assms sf obtain b bs where i0: "i0 = b # bs" by (cases i0) auto
  have kw: "\<forall>c \<in> set ''shot''. of_char c \<noteq> (10 :: int)" by simp
  have m1: "maybe_consume_keyword i0 ''shot'' =
      (case consume_keyword_chars ''shot'' (fst (getc i0)) (snd (getc i0)) of
         Inl e \<Rightarrow> Inl e | Inr (next1, i2) \<Rightarrow> Inr (True, next1, i2))"
    and m2: "maybe_consume_keyword (i0 @ [0x0A]) ''shot'' =
      (case consume_keyword_chars ''shot'' (fst (getc (i0 @ [0x0A]))) (snd (getc (i0 @ [0x0A]))) of
         Inl e \<Rightarrow> Inl e | Inr (next1, i2) \<Rightarrow> Inr (True, next1, i2))"
    unfolding maybe_consume_keyword_def i0 by (simp_all add: uint_not_EOF)
  from consume_keyword_chars_newline [OF kw, of i0]
  consider e where "consume_keyword_chars ''shot'' (fst (getc i0)) (snd (getc i0)) = Inl e"
      "consume_keyword_chars ''shot'' (fst (getc (i0 @ [0x0A]))) (snd (getc (i0 @ [0x0A]))) = Inl e"
    | y where "consume_keyword_chars ''shot'' (fst (getc i0)) (snd (getc i0)) = Inr (getc y)"
      "consume_keyword_chars ''shot'' (fst (getc (i0 @ [0x0A]))) (snd (getc (i0 @ [0x0A])))
         = Inr (getc (y @ [0x0A]))"
      "set y \<subseteq> set i0"
    by blast
  then show ?thesis
  proof cases
    case 1
    with m1 m2 show ?thesis by (simp add: FormatDets_start_record_def sf)
  next
    case 2
    from 2(3) assms(2) sf have y: "0x0A \<notin> set y" by auto
    let ?t = "\<lparr>inDets = i0, bufferDets = replicate (length buf) False,
      position_in_bufferDets = 0, m_bits_per_record = m, d_bits_per_record = d,
      l_bits_per_record = l\<rparr>"
    from FormatDets_read_shot_newline [OF y, of ?t]
    have rs: "FormatDets_read_shot (?t\<lparr>inDets := snd (getc (y @ [0x0A]))\<rparr>) (fst (getc (y @ [0x0A])))
       = FormatDets_read_shot (?t\<lparr>inDets := snd (getc y)\<rparr>) (fst (getc y))" .
    from 2(1,2) m1 m2 have
      "maybe_consume_keyword i0 ''shot'' = Inr (True, fst (getc y), snd (getc y))"
      "maybe_consume_keyword (i0 @ [0x0A]) ''shot''
         = Inr (True, fst (getc (y @ [0x0A])), snd (getc (y @ [0x0A])))"
      by simp_all
    with rs show ?thesis by (simp add: FormatDets_start_record_def sf case_prod_unfold)
  qed
qed

section \<open>End of the stream inside a record\<close>

text \<open>
  Claim C3, as stated, fails. The DETS \<^verbatim>\<open>start_record\<close> leaves its loop on
  \<^verbatim>\<open>c == '\n' || c == EOF\<close>: on \<^verbatim>\<open>"shot M0"\<close> with no newline (widths \<open>2, 3, 1\<close>) it returns true
  with the record \<open>1,0,0,0,0,0\<close>. The 01 decoder with \<open>m = 3\<close> on \<^verbatim>\<open>"010"\<close> with no newline reads
  three bits and \<^verbatim>\<open>is_end_of_record\<close> is true. On the truncated stream \<^verbatim>\<open>"01"\<close>, after the two
  bits have been read, \<^verbatim>\<open>start_record\<close> returns false and so does \<^verbatim>\<open>next_record\<close>, without an
  error, although the stream ended inside the record: \<^verbatim>\<open>start_record\<close> looks at the stream
  only, and the loop of \<^verbatim>\<open>next_record\<close> stops on \<^verbatim>\<open>payload == EOF\<close>.
\<close>

theorem C3_counterexample:
  "start_record (ReaderDets (FormatDets [0x73, 0x68, 0x6F, 0x74, 0x20, 0x4D, 0x30] 2 3 1)) =
     Inr (True, ReaderDets \<lparr>inDets = [],
                  bufferDets = [True, False, False, False, False, False],
                  position_in_bufferDets = 0, m_bits_per_record = 2, d_bits_per_record = 3,
                  l_bits_per_record = 1\<rparr>)
   \<and> start_record (Reader01 (Format01 [0x30, 0x31, 0x30] 3)) =
     Inr (True, Reader01 \<lparr>in01 = [0x31, 0x30], payload01 = 0x30, position01 = 0,
                  bits_per_record01 = 3\<rparr>)
   \<and> read_bits read_bit 3
        (Reader01 \<lparr>in01 = [0x31, 0x30], payload01 = 0x30, position01 = 0,
                   bits_per_record01 = 3\<rparr>) =
     Inr ([False, True, False],
          Reader01 \<lparr>in01 = [], payload01 = EOF, position01 = 3, bits_per_record01 = 3\<rparr>)
   \<and> is_end_of_record
        (Reader01 \<lparr>in01 = [], payload01 = EOF, position01 = 3, bits_per_record01 = 3\<rparr>) =
     Inr True
   \<and> start_record (Reader01 (Format01 [0x30, 0x31] 3)) =
     Inr (True, Reader01 \<lparr>in01 = [0x31], payload01 = 0x30, position01 = 0,
                  bits_per_record01 = 3\<rparr>)
   \<and> read_bits read_bit 2
        (Reader01 \<lparr>in01 = [0x31], payload01 = 0x30, position01 = 0, bits_per_record01 = 3\<rparr>) =
     Inr ([False, True],
          Reader01 \<lparr>in01 = [], payload01 = EOF, position01 = 2, bits_per_record01 = 3\<rparr>)
   \<and> start_record
        (Reader01 \<lparr>in01 = [], payload01 = EOF, position01 = 2, bits_per_record01 = 3\<rparr>) =
     Inr (False, Reader01 \<lparr>in01 = [], payload01 = EOF, position01 = 0, bits_per_record01 = 3\<rparr>)
   \<and> next_record
        (Reader01 \<lparr>in01 = [], payload01 = EOF, position01 = 2, bits_per_record01 = 3\<rparr>) =
     Inr (False, Reader01 \<lparr>in01 = [], payload01 = EOF, position01 = 0, bits_per_record01 = 3\<rparr>)"
  by code_simp

text \<open>
  Claim C3, amended. \<^verbatim>\<open>start_record\<close> never looks at the record in progress: for every
  decoder it returns false exactly when the stream is exhausted at the call. The end of the
  stream inside a record is an error on these paths:
  \<^item> the 01 decoder: with the look-ahead at end-of-stream before position \<open>m\<close>,
    \<^verbatim>\<open>read_bit\<close>, \<^verbatim>\<open>is_end_of_record\<close> and \<^verbatim>\<open>read_bits_into_bytes\<close> throw;
  \<^item> the B8 decoder: \<^verbatim>\<open>read_bit\<close> before position \<open>m\<close> with no buffered bit and the stream
    exhausted throws;
  \<^item> the Hits decoder: \<^verbatim>\<open>start_record\<close> on a non-empty stream without a newline throws;
  \<^item> the R8 decoder, in either build: \<^verbatim>\<open>start_record\<close> on a non-empty stream of continuation
    bytes \<open>FF\<close> only, \<^verbatim>\<open>read_bit\<close> and \<^verbatim>\<open>read_bits_into_bytes\<close> with empty run counters on a
    stream of continuation bytes only (or exhausted), and \<^verbatim>\<open>maybe_buffer_data\<close> when the stream
    ends where the terminator \<open>00\<close> of a one-bit on the last position is due, all throw;
  \<^item> the DETS decoder: \<^verbatim>\<open>start_record\<close> on a non-empty stream without a newline does what it
    does on that stream followed by a newline, the same error or the same record; so it
    throws unless nothing but the final newline is missing.

  The 01 decoder too takes the end of the stream for the final newline: with the look-ahead
  at end-of-stream at position \<open>m\<close> or beyond, \<^verbatim>\<open>is_end_of_record\<close> is true; and its
  \<^verbatim>\<open>next_record\<close>, at the end of the stream, returns false whatever the position. The default
  \<^verbatim>\<open>read_bits_into_bytes\<close> returns fewer bits than the buffer holds only at the end of the
  record or at a change of result type, and the R8 override only at the end of the record.
\<close>

theorem C3_end_of_stream_inside_a_record:
  "(start_record r = Inr (b, r1) \<longrightarrow> b = (stream_of r \<noteq> []))
   \<and> (payload01 a = EOF \<and> position01 a < bits_per_record01 a \<longrightarrow>
        Format01_read_bit a = Inl f01_past_end_of_file
        \<and> Format01_is_end_of_record a = Inl f01_ended_early
        \<and> Format01_read_bits_into_bytes a out = Inl f01_ended_early)
   \<and> (positionB8 t < bits_per_recordB8 t \<and> bits_availableB8 t = 0 \<and> inB8 t = [] \<longrightarrow>
        FormatB8_read_bit t = Inl b8_past_end_of_file)
   \<and> (inHits h \<noteq> [] \<and> 0x0A \<notin> set (inHits h) \<longrightarrow> (\<exists>e. FormatHits_start_record h = Inl e))
   \<and> (inR8 u \<noteq> [] \<and> set (inR8 u) \<subseteq> {0xFF} \<longrightarrow> (\<exists>e. FormatR8_start_record u = Inl e))
   \<and> (buffered_0s u = 0 \<and> buffered_1s u = 0 \<and> set (inR8 u) \<subseteq> {0xFF} \<longrightarrow>
        (\<exists>e. FormatR8_read_bit u = Inl e))
   \<and> (buffered_0s u = 0 \<and> buffered_1s u = 0 \<and> \<not> have_seen_terminal_1 u
        \<and> set (inR8 u) \<subseteq> {0xFF} \<and> out \<noteq> [] \<longrightarrow>
        (\<exists>e. FormatR8_read_bits_into_bytes u out = Inl e))
   \<and> (buffered_0s u = 0 \<and> buffered_1s u = 0 \<and> \<not> FormatR8_is_end_of_record u
        \<and> v \<noteq> 0xFF \<and> inR8 u = replicate k 0xFF @ [v]
        \<and> positionR8 u + 255 * k + unat v + 1 = bits_per_recordR8 u \<longrightarrow>
        maybe_buffer_data u = Inl r8_no_terminator_before_end_of_input)
   \<and> (MeasureRecordReader_read_bits_into_bytes rb ie crt g out = Inr (n, out1, g1) \<longrightarrow>
        n = 8 * length out \<or> ie g1 = Inr True \<or> crt g1 \<noteq> crt g)
   \<and> (FormatR8_read_bits_into_bytes u out = Inr (n, out2, u1) \<longrightarrow>
        n = 8 * length out \<or> FormatR8_is_end_of_record u1)
   \<and> (inDets w \<noteq> [] \<and> 0x0A \<notin> set (inDets w) \<longrightarrow>
        FormatDets_start_record w = FormatDets_start_record (w\<lparr>inDets := inDets w @ [0x0A]\<rparr>))
   \<and> (payload01 a = EOF \<and> bits_per_record01 a \<le> position01 a \<longrightarrow>
        Format01_is_end_of_record a = Inr True)
   \<and> (payload01 a = EOF \<and> in01 a = [] \<longrightarrow>
        Format01_next_record a = Inr (False, a\<lparr>position01 := 0\<rparr>))"
proof -
  have 1: "start_record r = Inr (b, r1) \<longrightarrow> b = (stream_of r \<noteq> [])"
    using start_record_flag [of r b r1] by simp
  have 2: "payload01 a = EOF \<and> position01 a < bits_per_record01 a \<longrightarrow>
        Format01_read_bit a = Inl f01_past_end_of_file
        \<and> Format01_is_end_of_record a = Inl f01_ended_early
        \<and> Format01_read_bits_into_bytes a out = Inl f01_ended_early"
    by (simp add: Format01_read_bit_def Format01_is_end_of_record_def Let_def
          Format01_read_bits_into_bytes_def MeasureRecordReader_read_bits_into_bytes_def)
  have 3: "positionB8 t < bits_per_recordB8 t \<and> bits_availableB8 t = 0 \<and> inB8 t = [] \<longrightarrow>
        FormatB8_read_bit t = Inl b8_past_end_of_file"
    by (simp add: FormatB8_read_bit_def maybe_update_payload_def Let_def)
  have 4: "inHits h \<noteq> [] \<and> 0x0A \<notin> set (inHits h) \<longrightarrow> (\<exists>e. FormatHits_start_record h = Inl e)"
    by (intro impI, elim conjE, rule FormatHits_start_record_no_newline)
  have 5: "inR8 u \<noteq> [] \<and> set (inR8 u) \<subseteq> {0xFF} \<longrightarrow> (\<exists>e. FormatR8_start_record u = Inl e)"
    by (intro impI, elim conjE, rule FormatR8_start_record_continuations)
  have 6: "buffered_0s u = 0 \<and> buffered_1s u = 0 \<and> set (inR8 u) \<subseteq> {0xFF} \<longrightarrow>
        (\<exists>e. FormatR8_read_bit u = Inl e)"
    by (intro impI, elim conjE, rule FormatR8_read_bit_continuations)
  have 7: "buffered_0s u = 0 \<and> buffered_1s u = 0 \<and> \<not> have_seen_terminal_1 u
        \<and> set (inR8 u) \<subseteq> {0xFF} \<and> out \<noteq> [] \<longrightarrow>
        (\<exists>e. FormatR8_read_bits_into_bytes u out = Inl e)"
    by (intro impI, elim conjE, rule FormatR8_read_bits_into_bytes_continuations)
  have 8: "buffered_0s u = 0 \<and> buffered_1s u = 0 \<and> \<not> FormatR8_is_end_of_record u
        \<and> v \<noteq> 0xFF \<and> inR8 u = replicate k 0xFF @ [v]
        \<and> positionR8 u + 255 * k + unat v + 1 = bits_per_recordR8 u \<longrightarrow>
        maybe_buffer_data u = Inl r8_no_terminator_before_end_of_input"
    by (intro impI, elim conjE, rule maybe_buffer_data_no_terminator)
  have 9: "MeasureRecordReader_read_bits_into_bytes rb ie crt g out = Inr (n, out1, g1) \<longrightarrow>
        n = 8 * length out \<or> ie g1 = Inr True \<or> crt g1 \<noteq> crt g"
    by (intro impI, rule default_read_bits_into_bytes_stop)
  have 10: "FormatR8_read_bits_into_bytes u out = Inr (n, out2, u1) \<longrightarrow>
        n = 8 * length out \<or> FormatR8_is_end_of_record u1"
    unfolding FormatR8_read_bits_into_bytes_def
    using FormatR8_byte_loop_stop [of out 0 u n out2 u1] by simp
  have 11: "inDets w \<noteq> [] \<and> 0x0A \<notin> set (inDets w) \<longrightarrow>
        FormatDets_start_record w = FormatDets_start_record (w\<lparr>inDets := inDets w @ [0x0A]\<rparr>)"
    using FormatDets_start_record_newline [of w] by simp
  have 12: "payload01 a = EOF \<and> bits_per_record01 a \<le> position01 a \<longrightarrow>
        Format01_is_end_of_record a = Inr True"
    by (simp add: Format01_is_end_of_record_def Let_def)
  have 13: "payload01 a = EOF \<and> in01 a = [] \<longrightarrow>
        Format01_next_record a = Inr (False, a\<lparr>position01 := 0\<rparr>)"
  proof
    assume h: "payload01 a = EOF \<and> in01 a = []"
    then have "Format01_skip_line a = Inr a" by (simp add: Format01_skip_line.simps [of a])
    with h show "Format01_next_record a = Inr (False, a\<lparr>position01 := 0\<rparr>)"
      by (cases a) (simp add: Format01_next_record_def Format01_start_record_def)
  qed
  from 1 2 3 4 5 6 7 8 9 10 11 12 13 show ?thesis by - (intro conjI; assumption)
qed

definition f01_truncated :: reader01 where
  "f01_truncated = \<lparr>in01 = [], payload01 = EOF, position01 = 2, bits_per_record01 = 3\<rparr>"

definition b8_truncated :: readerB8 where
  "b8_truncated = \<lparr>inB8 = [], bits_per_recordB8 = 16, payloadB8 = 0, bits_availableB8 = 0,
                    positionB8 = 8\<rparr>"

definition hits_truncated :: readerHits where
  "hits_truncated = FormatHits [0x30, 0x2C, 0x33] 8"

definition r8_truncated :: "stream \<Rightarrow> readerR8" where
  "r8_truncated i = \<lparr>NDEBUG = False, inR8 = i, bits_per_recordR8 = 5, positionR8 = 3,
                      have_seen_terminal_1 = False, buffered_0s = 0, buffered_1s = 0\<rparr>"

definition r8_whole :: readerR8 where
  "r8_whole = \<lparr>NDEBUG = False, inR8 = [], bits_per_recordR8 = 5, positionR8 = 0,
                have_seen_terminal_1 = True, buffered_0s = 5, buffered_1s = 0\<rparr>"

definition dets_truncated :: "stream \<Rightarrow> readerDets" where
  "dets_truncated i = FormatDets i 2 3 1"

theorem C3_end_of_stream_inside_a_record_witness:
  "start_record (Reader01 (f01_truncated\<lparr>payload01 := 0x0A, position01 := 3\<rparr>)) =
     Inr (False, Reader01 (f01_truncated\<lparr>position01 := 0\<rparr>))
   \<and> False = (stream_of (Reader01 (f01_truncated\<lparr>payload01 := 0x0A, position01 := 3\<rparr>)) \<noteq> [])
   \<and> payload01 f01_truncated = EOF
   \<and> position01 f01_truncated < bits_per_record01 f01_truncated
   \<and> Format01_read_bit f01_truncated = Inl f01_past_end_of_file
   \<and> Format01_is_end_of_record f01_truncated = Inl f01_ended_early
   \<and> Format01_read_bits_into_bytes f01_truncated [0xFF] = Inl f01_ended_early
   \<and> positionB8 b8_truncated < bits_per_recordB8 b8_truncated
   \<and> bits_availableB8 b8_truncated = 0
   \<and> inB8 b8_truncated = []
   \<and> FormatB8_read_bit b8_truncated = Inl b8_past_end_of_file
   \<and> inHits hits_truncated \<noteq> []
   \<and> 0x0A \<notin> set (inHits hits_truncated)
   \<and> (\<exists>e. FormatHits_start_record hits_truncated = Inl e)
   \<and> inR8 (r8_truncated [0xFF]) \<noteq> []
   \<and> set (inR8 (r8_truncated [0xFF])) \<subseteq> {0xFF}
   \<and> (\<exists>e. FormatR8_start_record (r8_truncated [0xFF]) = Inl e)
   \<and> buffered_0s (r8_truncated []) = 0
   \<and> buffered_1s (r8_truncated []) = 0
   \<and> \<not> have_seen_terminal_1 (r8_truncated [])
   \<and> set (inR8 (r8_truncated [])) \<subseteq> {0xFF}
   \<and> (\<exists>e. FormatR8_read_bit (r8_truncated []) = Inl e)
   \<and> (\<exists>e. FormatR8_read_bits_into_bytes (r8_truncated []) [0xFF] = Inl e)
   \<and> \<not> FormatR8_is_end_of_record (r8_truncated [0x01])
   \<and> inR8 (r8_truncated [0x01]) = replicate 0 0xFF @ [0x01]
   \<and> positionR8 (r8_truncated [0x01]) + 255 * 0 + unat (0x01 :: byte) + 1
       = bits_per_recordR8 (r8_truncated [0x01])
   \<and> maybe_buffer_data (r8_truncated [0x01]) = Inl r8_no_terminator_before_end_of_input
   \<and> MeasureRecordReader_read_bits_into_bytes Format01_read_bit Format01_is_end_of_record
        MeasureRecordReader_current_result_type f01_sample [0xFF, 0xFF]
       = Inr (3, [0x02, 0xFF], f01_sample\<lparr>in01 := [], payload01 := 0x0A, position01 := 3\<rparr>)
   \<and> Format01_is_end_of_record (f01_sample\<lparr>in01 := [], payload01 := 0x0A, position01 := 3\<rparr>)
       = Inr True
   \<and> FormatR8_read_bits_into_bytes r8_whole [0xFF, 0xFF]
       = Inr (5, [0x00, 0xFF], r8_whole\<lparr>positionR8 := 5, buffered_0s := 0\<rparr>)
   \<and> FormatR8_is_end_of_record (r8_whole\<lparr>positionR8 := 5, buffered_0s := 0\<rparr>)
   \<and> inDets (dets_truncated [0x73, 0x68, 0x6F]) \<noteq> []
   \<and> 0x0A \<notin> set (inDets (dets_truncated [0x73, 0x68, 0x6F]))
   \<and> FormatDets_start_record (dets_truncated [0x73, 0x68, 0x6F]) = Inl keyword_not_found
   \<and> inDets (dets_truncated [0x73, 0x68, 0x6F, 0x74, 0x20, 0x4D]) \<noteq> []
   \<and> 0x0A \<notin> set (inDets (dets_truncated [0x73, 0x68, 0x6F, 0x74, 0x20, 0x4D]))
   \<and> FormatDets_start_record (dets_truncated [0x73, 0x68, 0x6F, 0x74, 0x20, 0x4D])
       = Inl dets_no_integer
   \<and> inDets (dets_truncated [0x73, 0x68, 0x6F, 0x74, 0x20, 0x4D, 0x30]) \<noteq> []
   \<and> 0x0A \<notin> set (inDets (dets_truncated [0x73, 0x68, 0x6F, 0x74, 0x20, 0x4D, 0x30]))
   \<and> FormatDets_start_record (dets_truncated [0x73, 0x68, 0x6F, 0x74, 0x20, 0x4D, 0x30])
       = Inr (True, (dets_truncated [])\<lparr>bufferDets := [True, False, False, False, False, False],
                       position_in_bufferDets := 0\<rparr>)
   \<and> payload01 (f01_truncated\<lparr>position01 := 3\<rparr>) = EOF
   \<and> bits_per_record01 (f01_truncated\<lparr>position01 := 3\<rparr>)
       \<le> position01 (f01_truncated\<lparr>position01 := 3\<rparr>)
   \<and> Format01_is_end_of_record (f01_truncated\<lparr>position01 := 3\<rparr>) = Inr True
   \<and> in01 f01_truncated = []
   \<and> Format01_next_record f01_truncated = Inr (False, f01_truncated\<lparr>position01 := 0\<rparr>)"
proof -
  note t = C3_end_of_stream_inside_a_record
  note p1 = conjunct1
  note p2 = conjunct2 [THEN p1]
  note p3 = conjunct2 [THEN p2]
  note p4 = conjunct2 [THEN p3]
  note p5 = conjunct2 [THEN p4]
  note p6 = conjunct2 [THEN p5]
  note p7 = conjunct2 [THEN p6]
  note p8 = conjunct2 [THEN p7]
  note p9 = conjunct2 [THEN p8]
  note p10 = conjunct2 [THEN p9]
  note p11 = conjunct2 [THEN p10]
  note p12 = conjunct2 [THEN p11]
  note p13 = conjunct2 [THEN conjunct2, THEN conjunct2, THEN conjunct2, THEN conjunct2,
      THEN conjunct2, THEN conjunct2, THEN conjunct2, THEN conjunct2, THEN conjunct2,
      THEN conjunct2, THEN conjunct2]
  have a1: "start_record (Reader01 (f01_truncated\<lparr>payload01 := 0x0A, position01 := 3\<rparr>)) =
     Inr (False, Reader01 (f01_truncated\<lparr>position01 := 0\<rparr>))" by code_simp
  from t [where r = "Reader01 (f01_truncated\<lparr>payload01 := 0x0A, position01 := 3\<rparr>)"
      and b = False and ?r1.0 = "Reader01 (f01_truncated\<lparr>position01 := 0\<rparr>)", THEN p1] a1
  have a2: "False
      = (stream_of (Reader01 (f01_truncated\<lparr>payload01 := 0x0A, position01 := 3\<rparr>)) \<noteq> [])"
    by blast
  have b1: "payload01 f01_truncated = EOF" by (simp add: f01_truncated_def)
  have b2: "position01 f01_truncated < bits_per_record01 f01_truncated"
    by (simp add: f01_truncated_def)
  from t [where a = f01_truncated and out = "[0xFF]", THEN p2] b1 b2
  have b3: "Format01_read_bit f01_truncated = Inl f01_past_end_of_file"
    and b4: "Format01_is_end_of_record f01_truncated = Inl f01_ended_early"
    and b5: "Format01_read_bits_into_bytes f01_truncated [0xFF] = Inl f01_ended_early"
    by blast+
  have c1: "positionB8 b8_truncated < bits_per_recordB8 b8_truncated"
    and c2: "bits_availableB8 b8_truncated = 0" and c3: "inB8 b8_truncated = []"
    by (simp_all add: b8_truncated_def)
  from t [where t = b8_truncated, THEN p3] c1 c2 c3
  have c4: "FormatB8_read_bit b8_truncated = Inl b8_past_end_of_file" by blast
  have d1: "inHits hits_truncated \<noteq> []" and d2: "0x0A \<notin> set (inHits hits_truncated)"
    by (simp_all add: hits_truncated_def FormatHits_def)
  from t [where h = hits_truncated, THEN p4] d1 d2
  have d3: "\<exists>e. FormatHits_start_record hits_truncated = Inl e" by blast
  have e1: "inR8 (r8_truncated [0xFF]) \<noteq> []" and e2: "set (inR8 (r8_truncated [0xFF])) \<subseteq> {0xFF}"
    by (simp_all add: r8_truncated_def)
  from t [where u = "r8_truncated [0xFF]", THEN p5] e1 e2
  have e3: "\<exists>e. FormatR8_start_record (r8_truncated [0xFF]) = Inl e" by blast
  have f1: "buffered_0s (r8_truncated []) = 0" and f2: "buffered_1s (r8_truncated []) = 0"
    and f3: "\<not> have_seen_terminal_1 (r8_truncated [])"
    and f4: "set (inR8 (r8_truncated [])) \<subseteq> {0xFF}"
    by (simp_all add: r8_truncated_def)
  have f0: "[0xFF :: byte] \<noteq> []" by simp
  from t [where u = "r8_truncated []", THEN p6] f1 f2 f4
  have f5: "\<exists>e. FormatR8_read_bit (r8_truncated []) = Inl e" by blast
  from t [where u = "r8_truncated []" and out = "[0xFF]", THEN p7] f1 f2 f3 f4 f0
  have f6: "\<exists>e. FormatR8_read_bits_into_bytes (r8_truncated []) [0xFF] = Inl e" by blast
  have g0: "buffered_0s (r8_truncated [0x01]) = 0" "buffered_1s (r8_truncated [0x01]) = 0"
    "(0x01 :: byte) \<noteq> 0xFF"
    by (simp_all add: r8_truncated_def)
  have g1: "\<not> FormatR8_is_end_of_record (r8_truncated [0x01])"
    by (simp add: r8_truncated_def FormatR8_is_end_of_record_def)
  have g2: "inR8 (r8_truncated [0x01]) = replicate 0 0xFF @ [0x01]"
    by (simp add: r8_truncated_def)
  have g3: "positionR8 (r8_truncated [0x01]) + 255 * 0 + unat (0x01 :: byte) + 1
       = bits_per_recordR8 (r8_truncated [0x01])"
    by (simp add: r8_truncated_def)
  from t [where u = "r8_truncated [0x01]" and v = "0x01" and k = 0, THEN p8] g0 g1 g2 g3
  have g4: "maybe_buffer_data (r8_truncated [0x01]) = Inl r8_no_terminator_before_end_of_input"
    by blast
  have h1: "MeasureRecordReader_read_bits_into_bytes Format01_read_bit Format01_is_end_of_record
        MeasureRecordReader_current_result_type f01_sample [0xFF, 0xFF]
       = Inr (3, [0x02, 0xFF], f01_sample\<lparr>in01 := [], payload01 := 0x0A, position01 := 3\<rparr>)"
    by code_simp
  have h2: "(3 :: nat) \<noteq> 8 * length [0xFF, 0xFF :: byte]" by simp
  have h3: "MeasureRecordReader_current_result_type
              (f01_sample\<lparr>in01 := [], payload01 := 0x0A, position01 := 3\<rparr>)
            = MeasureRecordReader_current_result_type f01_sample"
    by (simp add: MeasureRecordReader_current_result_type_def)
  from t [where rb = Format01_read_bit and ie = Format01_is_end_of_record
      and crt = MeasureRecordReader_current_result_type and g = f01_sample
      and out = "[0xFF, 0xFF]" and n = 3 and ?out1.0 = "[0x02, 0xFF]"
      and ?g1.0 = "f01_sample\<lparr>in01 := [], payload01 := 0x0A, position01 := 3\<rparr>", THEN p9] h1 h2 h3
  have h4: "Format01_is_end_of_record (f01_sample\<lparr>in01 := [], payload01 := 0x0A, position01 := 3\<rparr>)
       = Inr True" by blast
  have i1: "FormatR8_read_bits_into_bytes r8_whole [0xFF, 0xFF]
       = Inr (5, [0x00, 0xFF], r8_whole\<lparr>positionR8 := 5, buffered_0s := 0\<rparr>)"
    by code_simp
  have i2: "(5 :: nat) \<noteq> 8 * length [0xFF, 0xFF :: byte]" by simp
  from t [where u = r8_whole and out = "[0xFF, 0xFF]" and n = 5 and ?out2.0 = "[0x00, 0xFF]"
      and ?u1.0 = "r8_whole\<lparr>positionR8 := 5, buffered_0s := 0\<rparr>", THEN p10] i1 i2
  have i3: "FormatR8_is_end_of_record (r8_whole\<lparr>positionR8 := 5, buffered_0s := 0\<rparr>)"
    by blast
  have j1: "inDets (dets_truncated [0x73, 0x68, 0x6F]) \<noteq> []"
    and j2: "0x0A \<notin> set (inDets (dets_truncated [0x73, 0x68, 0x6F]))"
    by (simp_all add: dets_truncated_def FormatDets_def)
  have j3: "FormatDets_start_record
      ((dets_truncated [0x73, 0x68, 0x6F])
         \<lparr>inDets := inDets (dets_truncated [0x73, 0x68, 0x6F]) @ [0x0A]\<rparr>) = Inl keyword_not_found"
    by code_simp
  from t [where w = "dets_truncated [0x73, 0x68, 0x6F]", THEN p11] j1 j2 j3
  have j4: "FormatDets_start_record (dets_truncated [0x73, 0x68, 0x6F]) = Inl keyword_not_found"
    by simp
  have k1: "inDets (dets_truncated [0x73, 0x68, 0x6F, 0x74, 0x20, 0x4D]) \<noteq> []"
    and k2: "0x0A \<notin> set (inDets (dets_truncated [0x73, 0x68, 0x6F, 0x74, 0x20, 0x4D]))"
    by (simp_all add: dets_truncated_def FormatDets_def)
  have k3: "FormatDets_start_record
      ((dets_truncated [0x73, 0x68, 0x6F, 0x74, 0x20, 0x4D])
         \<lparr>inDets := inDets (dets_truncated [0x73, 0x68, 0x6F, 0x74, 0x20, 0x4D]) @ [0x0A]\<rparr>)
       = Inl dets_no_integer"
    by code_simp
  from t [where w = "dets_truncated [0x73, 0x68, 0x6F, 0x74, 0x20, 0x4D]", THEN p11] k1 k2 k3
  have k4: "FormatDets_start_record (dets_truncated [0x73, 0x68, 0x6F, 0x74, 0x20, 0x4D])
       = Inl dets_no_integer"
    by simp
  have l1: "inDets (dets_truncated [0x73, 0x68, 0x6F, 0x74, 0x20, 0x4D, 0x30]) \<noteq> []"
    and l2: "0x0A \<notin> set (inDets (dets_truncated [0x73, 0x68, 0x6F, 0x74, 0x20, 0x4D, 0x30]))"
    by (simp_all add: dets_truncated_def FormatDets_def)
  have l3: "FormatDets_start_record
      ((dets_truncated [0x73, 0x68, 0x6F, 0x74, 0x20, 0x4D, 0x30])
         \<lparr>inDets := inDets (dets_truncated [0x73, 0x68, 0x6F, 0x74, 0x20, 0x4D, 0x30]) @ [0x0A]\<rparr>)
       = Inr (True, (dets_truncated [])\<lparr>bufferDets := [True, False, False, False, False, False],
                       position_in_bufferDets := 0\<rparr>)"
    by code_simp
  from t [where w = "dets_truncated [0x73, 0x68, 0x6F, 0x74, 0x20, 0x4D, 0x30]", THEN p11] l1 l2 l3
  have l4: "FormatDets_start_record (dets_truncated [0x73, 0x68, 0x6F, 0x74, 0x20, 0x4D, 0x30])
       = Inr (True, (dets_truncated [])\<lparr>bufferDets := [True, False, False, False, False, False],
                       position_in_bufferDets := 0\<rparr>)"
    by simp
  have m1: "payload01 (f01_truncated\<lparr>position01 := 3\<rparr>) = EOF"
    and m2: "bits_per_record01 (f01_truncated\<lparr>position01 := 3\<rparr>)
       \<le> position01 (f01_truncated\<lparr>position01 := 3\<rparr>)"
    by (simp_all add: f01_truncated_def)
  from t [where a = "f01_truncated\<lparr>position01 := 3\<rparr>", THEN p12] m1 m2
  have m3: "Format01_is_end_of_record (f01_truncated\<lparr>position01 := 3\<rparr>) = Inr True" by blast
  have n1: "in01 f01_truncated = []" by (simp add: f01_truncated_def)
  from t [where a = f01_truncated, THEN p13] b1 n1
  have n2: "Format01_next_record f01_truncated = Inr (False, f01_truncated\<lparr>position01 := 0\<rparr>)"
    by blast
  from a1 a2 b1 b2 b3 b4 b5 c1 c2 c3 c4 d1 d2 d3 e1 e2 e3 f1 f2 f3 f4 f5 f6 g1 g2 g3 g4
    h1 h4 i1 i3 j1 j2 j4 k1 k2 k4 l1 l2 l4 m1 m2 m3 n1 n2
  show ?thesis by - (intro conjI; assumption)
qed

text \<open>
  The block path of the B8 \<^verbatim>\<open>read_bits_into_bytes\<close> is no part of the amended claim. It takes
  the number of bits from what \<^verbatim>\<open>fread\<close> could deliver: with \<open>m = 16\<close> on the single byte
  \<open>2A\<close>, the first call with a one-byte buffer returns 8 bits, and the second call, at
  position 8 of 16 with the stream exhausted, returns 0 bits and no error, where \<^verbatim>\<open>read_bit\<close>
  in the same state throws. The two paths of the same decoder disagree.
\<close>

lemma b8_block_read_at_end_of_stream:
  "start_record (ReaderB8 (FormatB8 [0x2A] 16)) =
     Inr (True, ReaderB8 \<lparr>inB8 = [], bits_per_recordB8 = 16, payloadB8 = 0x2A,
                  bits_availableB8 = 8, positionB8 = 0\<rparr>)
   \<and> read_bits_into_bytes
        (ReaderB8 \<lparr>inB8 = [], bits_per_recordB8 = 16, payloadB8 = 0x2A,
                   bits_availableB8 = 8, positionB8 = 0\<rparr>) [0xFF] =
     Inr (8, [0x2A], ReaderB8 \<lparr>inB8 = [], bits_per_recordB8 = 16, payloadB8 = 0,
                       bits_availableB8 = 0, positionB8 = 8\<rparr>)
   \<and> is_end_of_record
        (ReaderB8 \<lparr>inB8 = [], bits_per_recordB8 = 16, payloadB8 = 0,
                   bits_availableB8 = 0, positionB8 = 8\<rparr>) = Inr False
   \<and> read_bits_into_bytes
        (ReaderB8 \<lparr>inB8 = [], bits_per_recordB8 = 16, payloadB8 = 0,
                   bits_availableB8 = 0, positionB8 = 8\<rparr>) [0x77] =
     Inr (0, [0x77], ReaderB8 \<lparr>inB8 = [], bits_per_recordB8 = 16, payloadB8 = 0,
                       bits_availableB8 = 0, positionB8 = 8\<rparr>)
   \<and> read_bit
        (ReaderB8 \<lparr>inB8 = [], bits_per_recordB8 = 16, payloadB8 = 0,
                   bits_availableB8 = 0, positionB8 = 8\<rparr>) = Inl b8_past_end_of_file"
  by code_simp

section \<open>Hits and DETS records toggle bits\<close>

text \<open>
  A decimal number in the text of a record is a non-empty list of digits (leading zeros
  allowed); \<open>digits_value\<close> is the number it denotes and \<open>digit_bytes\<close> its ASCII bytes.
  \<open>toggle\<close> is \<^verbatim>\<open>buffer[k] ^= true\<close>.
\<close>

definition digits_value :: "nat list \<Rightarrow> nat" where
  "digits_value ds = foldl (\<lambda>a d. 10 * a + d) 0 ds"

definition digit_byte :: "nat \<Rightarrow> byte" where
  "digit_byte d = of_nat (48 + d)"

definition digit_bytes :: "nat list \<Rightarrow> byte list" where
  "digit_bytes ds = map digit_byte ds"

definition decimal :: "nat list \<Rightarrow> bool" where
  "decimal ds \<longleftrightarrow> ds \<noteq> [] \<and> list_all (\<lambda>d. d < 10) ds"

definition toggle :: "bool list \<Rightarrow> nat \<Rightarrow> bool list" where
  "toggle buffer k = buffer[k := (buffer ! k \<noteq> True)]"

text \<open>
  The text of a Hits record with the given decimal numbers: separated by commas, ended by a
  newline. A number is acceptable when it is a decimal below \<^verbatim>\<open>bits_per_record\<close>.
\<close>

fun hits_line :: "nat list list \<Rightarrow> byte list" where
  "hits_line [] = [0x0A]"
| "hits_line [ds] = digit_bytes ds @ [0x0A]"
| "hits_line (ds # es # dss) = digit_bytes ds @ [0x2C] @ hits_line (es # dss)"

definition hits_token_ok :: "nat \<Rightarrow> nat list \<Rightarrow> bool" where
  "hits_token_ok bits_per_record ds \<longleftrightarrow> decimal ds \<and> digits_value ds < bits_per_record"

subsection \<open>Reading a decimal number\<close>

lemma uint_digit: "d < 10 \<Longrightarrow> uint (digit_byte d) = 48 + int d"
proof -
  assume d: "d < 10"
  have "uint (digit_byte d) = int (unat (of_nat (48 + d) :: byte))"
    by (simp only: digit_byte_def uint_nat)
  also have "\<dots> = int ((48 + d) mod 2 ^ LENGTH(8))" by (simp only: unat_of_nat)
  also from d have "\<dots> = 48 + int d" by simp
  finally show ?thesis .
qed

lemma foldl_digits_ge: "(a :: nat) \<le> foldl (\<lambda>a d. 10 * a + d) a ds"
proof (induction ds arbitrary: a)
  case Nil
  show ?case by simp
next
  case (Cons d ds)
  have "a \<le> 10 * a + d" by simp
  also have "\<dots> \<le> foldl (\<lambda>a d. 10 * a + d) (10 * a + d) ds" by (rule Cons.IH)
  finally show ?case by simp
qed

lemma read_uint64_loop_digits:
  assumes "d0 < 10" "list_all (\<lambda>d. d < 10) ds" "\<not> isdigit (uint b)"
    "foldl (\<lambda>a d. 10 * a + d) (10 * v + d0) ds < 2 ^ 64"
  shows "read_uint64_loop v (48 + int d0) (digit_bytes ds @ b # rest) =
           Inr (foldl (\<lambda>a d. 10 * a + d) (10 * v + d0) ds, uint b, rest)"
  using assms
proof (induction ds arbitrary: v d0)
  case Nil
  then have small: "10 * v + d0 < 2 ^ 64" by simp
  then have "v * 10 < 2 ^ 64" by simp
  with small have v2: "uint64 (uint64 (v * 10) + nat (48 + int d0 - 48)) = 10 * v + d0"
    by (simp add: uint64_small mult.commute)
  from Nil.prems(1) have dg: "isdigit (48 + int d0)" by (simp add: isdigit_def)
  from v2 dg Nil.prems(3) show ?case
    by (simp add: read_uint64_loop.simps [of v "48 + int d0"] Let_def digit_bytes_def
          read_uint64_loop.simps [of "10 * v + d0" "uint b"])
next
  case (Cons d1 ds)
  let ?f = "\<lambda>a d. 10 * a + d"
  from Cons.prems(4) have fin: "foldl ?f (10 * (10 * v + d0) + d1) ds < 2 ^ 64" by simp
  have "10 * v + d0 \<le> 10 * (10 * v + d0) + d1" by simp
  also have "\<dots> \<le> foldl ?f (10 * (10 * v + d0) + d1) ds" by (rule foldl_digits_ge)
  finally have small: "10 * v + d0 < 2 ^ 64" using fin by simp
  then have "v * 10 < 2 ^ 64" by simp
  with small have v2: "uint64 (uint64 (v * 10) + nat (48 + int d0 - 48)) = 10 * v + d0"
    by (simp add: uint64_small mult.commute)
  from Cons.prems(1) have dg: "isdigit (48 + int d0)" by (simp add: isdigit_def)
  from Cons.prems(2) have d1: "d1 < 10" and ds: "list_all (\<lambda>d. d < 10) ds" by simp_all
  have g: "getc (digit_bytes (d1 # ds) @ b # rest) = (48 + int d1, digit_bytes ds @ b # rest)"
    using d1 by (simp add: digit_bytes_def uint_digit)
  from Cons.IH [OF d1 ds Cons.prems(3) fin] v2 dg g show ?case
    by (simp add: read_uint64_loop.simps [of v "48 + int d0"] Let_def)
qed

lemma read_uint64_digits:
  assumes "decimal ds" "\<not> isdigit (uint b)" "digits_value ds < 2 ^ 64"
  shows "read_uint64 (digit_bytes ds @ b # rest) c False = Inr (Some (digits_value ds), uint b, rest)"
    and "read_uint64 (tl (digit_bytes ds) @ b # rest) (uint (hd (digit_bytes ds))) True
           = Inr (Some (digits_value ds), uint b, rest)"
proof -
  from assms(1) obtain d0 ds' where ds: "ds = d0 # ds'" "d0 < 10" "list_all (\<lambda>d. d < 10) ds'"
    by (cases ds) (auto simp: decimal_def)
  from assms(3) ds have fin: "foldl (\<lambda>a d. 10 * a + d) (10 * 0 + d0) ds' < 2 ^ 64"
    by (simp add: digits_value_def)
  note l = read_uint64_loop_digits [OF ds(2,3) assms(2) fin, of rest]
  have dg: "isdigit (48 + int d0)" using ds(2) by (simp add: isdigit_def)
  from l dg ds show "read_uint64 (digit_bytes ds @ b # rest) c False
      = Inr (Some (digits_value ds), uint b, rest)"
    by (simp add: read_uint64_def digit_bytes_def uint_digit digits_value_def)
  from l dg ds show "read_uint64 (tl (digit_bytes ds) @ b # rest) (uint (hd (digit_bytes ds))) True
           = Inr (Some (digits_value ds), uint b, rest)"
    by (simp add: read_uint64_def digit_bytes_def uint_digit digits_value_def)
qed

lemma toggle_parity:
  "k < length buffer \<Longrightarrow>
     foldl toggle buffer ks ! k = (buffer ! k \<noteq> odd (count_list ks k))"
proof (induction ks arbitrary: buffer)
  case Nil
  then show ?case by simp
next
  case (Cons j ks)
  have len: "length (toggle buffer j) = length buffer" by (simp add: toggle_def)
  with Cons.prems have "foldl toggle (toggle buffer j) ks ! k =
      (toggle buffer j ! k \<noteq> odd (count_list ks k))"
    by (intro Cons.IH) simp
  moreover have "toggle buffer j ! k = (if j = k then \<not> buffer ! k else buffer ! k)"
    using Cons.prems by (cases "j < length buffer") (auto simp: toggle_def)
  ultimately show ?case by auto
qed

lemma length_foldl_toggle [simp]: "length (foldl toggle buffer ks) = length buffer"
  by (induction ks arbitrary: buffer) (simp_all add: toggle_def)

subsection \<open>Reading a Hits record\<close>

lemma digit_bytes_Cons [simp]: "digit_bytes (d # ds) = digit_byte d # digit_bytes ds"
  by (simp add: digit_bytes_def)

lemma read_uint64_digits_first:
  assumes "decimal (d0 # ds)" "\<not> isdigit (uint b)" "digits_value (d0 # ds) < 2 ^ 64"
  shows "read_uint64 (digit_bytes ds @ b # rest) (uint (digit_byte d0)) True
           = Inr (Some (digits_value (d0 # ds)), uint b, rest)"
  using read_uint64_digits(2) [OF assms, of rest] by simp

lemma FormatHits_read_line_step:
  assumes "read_uint64 (inHits s) c is_first = Inr (Some v, c1, i)" "c \<noteq> 10" "c1 = 44 \<or> c1 = 10"
    "v < bits_per_recordHits s"
  shows "FormatHits_read_line s c is_first =
           FormatHits_read_line (s\<lparr>inHits := i, bufferHits := toggle (bufferHits s) v\<rparr>) c1 False"
  using assms by (auto simp: FormatHits_read_line.simps [of s c is_first] toggle_def)

lemma FormatHits_read_line_done: "FormatHits_read_line s 10 is_first = Inr s"
  by (simp add: FormatHits_read_line.simps [of s 10 is_first])

lemma not_digit_sep: "\<not> isdigit (uint (0x2C :: byte))" "\<not> isdigit (uint (0x0A :: byte))"
  "\<not> isdigit (uint (0x20 :: byte))"
  by (simp_all add: isdigit_def)

lemma FormatHits_read_line_tokens:
  assumes "dss \<noteq> []" "list_all (hits_token_ok (bits_per_recordHits s)) dss"
    "bits_per_recordHits s \<le> 2 ^ 64" "inHits s = hits_line dss @ rest"
  shows "FormatHits_read_line s 44 False =
           Inr (s\<lparr>inHits := rest,
                   bufferHits := foldl toggle (bufferHits s) (map digits_value dss)\<rparr>)"
  using assms
proof (induction dss arbitrary: s rule: hits_line.induct)
  case 1
  then show ?case by simp
next
  case (2 ds)
  from "2.prems"(2) have ok: "decimal ds" "digits_value ds < bits_per_recordHits s"
    by (simp_all add: hits_token_ok_def)
  with "2.prems"(3) have small: "digits_value ds < 2 ^ 64" by simp
  from "2.prems"(4) have i: "inHits s = digit_bytes ds @ 0x0A # rest" by simp
  from read_uint64_digits(1) [OF ok(1) not_digit_sep(2) small, of rest 44]
  have "read_uint64 (inHits s) 44 False = Inr (Some (digits_value ds), 10, rest)"
    by (simp add: i)
  from FormatHits_read_line_step [OF this _ _ ok(2)] show ?case
    by (simp add: FormatHits_read_line_done)
next
  case (3 ds es dss)
  from "3.prems"(2) have "hits_token_ok (bits_per_recordHits s) ds"
    and oks: "list_all (hits_token_ok (bits_per_recordHits s)) (es # dss)"
    by simp_all
  then have ok: "decimal ds" "digits_value ds < bits_per_recordHits s"
    by (simp_all add: hits_token_ok_def)
  with "3.prems"(3) have small: "digits_value ds < 2 ^ 64" by simp
  from "3.prems"(4) have i: "inHits s = digit_bytes ds @ 0x2C # (hits_line (es # dss) @ rest)"
    by simp
  from read_uint64_digits(1) [OF ok(1) not_digit_sep(1) small, of "hits_line (es # dss) @ rest" 44]
  have "read_uint64 (inHits s) 44 False =
          Inr (Some (digits_value ds), 44, hits_line (es # dss) @ rest)"
    by (simp add: i)
  from FormatHits_read_line_step [OF this _ _ ok(2)]
  have st: "FormatHits_read_line s 44 False =
      FormatHits_read_line (s\<lparr>inHits := hits_line (es # dss) @ rest,
         bufferHits := toggle (bufferHits s) (digits_value ds)\<rparr>) 44 False" by simp
  let ?s = "s\<lparr>inHits := hits_line (es # dss) @ rest,
         bufferHits := toggle (bufferHits s) (digits_value ds)\<rparr>"
  have "FormatHits_read_line ?s 44 False =
      Inr (?s\<lparr>inHits := rest, bufferHits := foldl toggle (bufferHits ?s) (map digits_value (es # dss))\<rparr>)"
    using oks "3.prems"(3) by (intro "3.IH") simp_all
  with st show ?case by simp
qed

lemma FormatHits_start_record_line:
  assumes "list_all (hits_token_ok (bits_per_recordHits s)) dss"
    "bits_per_recordHits s \<le> 2 ^ 64" "inHits s = hits_line dss @ rest"
  shows "FormatHits_start_record s =
           Inr (True, s\<lparr>inHits := rest,
                         bufferHits := foldl toggle (replicate (length (bufferHits s)) False)
                                         (map digits_value dss),
                         position_in_bufferHits := 0\<rparr>)"
proof (cases dss)
  case Nil
  with assms(3) have "getc (inHits s) = (10, rest)" by simp
  with Nil show ?thesis
    by (simp add: FormatHits_start_record_def EOF_def FormatHits_read_line_done)
next
  case (Cons ds dss')
  let ?clear = "replicate (length (bufferHits s)) False"
  from assms(1) Cons have "hits_token_ok (bits_per_recordHits s) ds"
    and oks: "list_all (hits_token_ok (bits_per_recordHits s)) dss'"
    by simp_all
  then have ok: "decimal ds" "digits_value ds < bits_per_recordHits s"
    by (simp_all add: hits_token_ok_def)
  with assms(2) have small: "digits_value ds < 2 ^ 64" by simp
  from ok(1) obtain d0 ds' where ds: "ds = d0 # ds'" "d0 < 10"
    by (cases ds) (auto simp: decimal_def)
  have c: "uint (digit_byte d0) \<noteq> EOF" by (rule uint_not_EOF)
  have c10: "uint (digit_byte d0) \<noteq> 10" using ds(2) by (simp add: uint_digit)
  obtain i0 m0 b0 p0 where sf: "s = \<lparr>inHits = i0, bits_per_recordHits = m0, bufferHits = b0,
      position_in_bufferHits = p0\<rparr>" by (cases s) auto
  show ?thesis
  proof (cases dss')
    case Nil
    with Cons assms(3) ds have i: "inHits s = digit_byte d0 # (digit_bytes ds' @ 0x0A # rest)"
      by simp
    let ?s0 = "\<lparr>inHits = digit_bytes ds' @ 0x0A # rest, bits_per_recordHits = m0,
                bufferHits = replicate (length b0) False, position_in_bufferHits = 0\<rparr>"
    from read_uint64_digits_first [OF ok(1) [unfolded ds(1)] not_digit_sep(2) small [unfolded ds(1)], of rest]
    have "read_uint64 (inHits ?s0) (uint (digit_byte d0)) True
            = Inr (Some (digits_value ds), 10, rest)" by (simp add: ds(1))
    from FormatHits_read_line_step [OF this c10] ok(2) sf
    have "FormatHits_read_line ?s0 (uint (digit_byte d0)) True
          = Inr \<lparr>inHits = rest, bits_per_recordHits = m0,
                 bufferHits = toggle (replicate (length b0) False) (digits_value ds),
                 position_in_bufferHits = 0\<rparr>"
      by (simp add: FormatHits_read_line_done)
    with i c Nil Cons sf show ?thesis
      by (simp add: FormatHits_start_record_def)
  next
    case (Cons es dss'')
    with \<open>dss = ds # dss'\<close> assms(3) ds
    have i: "inHits s = digit_byte d0 # (digit_bytes ds' @ 0x2C # (hits_line dss' @ rest))"
      by simp
    let ?s0 = "\<lparr>inHits = digit_bytes ds' @ 0x2C # (hits_line dss' @ rest), bits_per_recordHits = m0,
                bufferHits = replicate (length b0) False, position_in_bufferHits = 0\<rparr>"
    let ?s1 = "\<lparr>inHits = hits_line dss' @ rest, bits_per_recordHits = m0,
                bufferHits = toggle (replicate (length b0) False) (digits_value ds),
                position_in_bufferHits = 0\<rparr>"
    from read_uint64_digits_first [OF ok(1) [unfolded ds(1)] not_digit_sep(1) small [unfolded ds(1)],
        of "hits_line dss' @ rest"]
    have "read_uint64 (inHits ?s0) (uint (digit_byte d0)) True
            = Inr (Some (digits_value ds), 44, hits_line dss' @ rest)" by (simp add: ds(1))
    from FormatHits_read_line_step [OF this c10] ok(2) sf
    have st: "FormatHits_read_line ?s0 (uint (digit_byte d0)) True
          = FormatHits_read_line ?s1 44 False"
      by simp
    have "FormatHits_read_line ?s1 44 False =
        Inr (?s1\<lparr>inHits := rest, bufferHits := foldl toggle (bufferHits ?s1) (map digits_value dss')\<rparr>)"
      using oks assms(2) Cons sf by (intro FormatHits_read_line_tokens) simp_all
    with st i c \<open>dss = ds # dss'\<close> sf show ?thesis
      by (simp add: FormatHits_start_record_def)
  qed
qed

end
